theory Spec2Isabelle
  imports Main "HOL-Library.Word" "HOL-Library.AList"
begin

section \<open>The container encoder: createWavBuffer\<close>

text \<open>
  A Node Buffer is a list of bytes. The writers of the Buffer class check their value
  against the range of the field and the offset against the length of the buffer, and
  throw a RangeError where the check fails; the model returns \<open>Inl ERR_OUT_OF_RANGE\<close>
  there. Sample rate and channel count are JavaScript numbers; the model takes them as
  integers.
\<close>

datatype error = ERR_OUT_OF_RANGE

type_synonym byte = "8 word"
type_synonym buffer = "byte list"

definition Buffer_alloc :: "nat \<Rightarrow> buffer" where
  "Buffer_alloc n = replicate n 0"

text \<open>Storing bytes from an offset on; what does not fit is cut off, the length stays.\<close>

definition overwrite :: "buffer \<Rightarrow> nat \<Rightarrow> byte list \<Rightarrow> buffer" where
  "overwrite buf off bs =
     take off buf @ take (length buf - off) bs @ drop (off + length bs) buf"

definition Buffer_write :: "string \<Rightarrow> nat \<Rightarrow> buffer \<Rightarrow> error + buffer" where
  "Buffer_write str off buf =
     (if length buf < off then Inl ERR_OUT_OF_RANGE
      else Inr (overwrite buf off (map of_char str)))"

definition le16 :: "int \<Rightarrow> byte list" where
  "le16 v = [word_of_int v, word_of_int (v div 256)]"

definition le32 :: "int \<Rightarrow> byte list" where
  "le32 v = [word_of_int v, word_of_int (v div 256),
             word_of_int (v div 65536), word_of_int (v div 16777216)]"

definition writeUInt16LE :: "int \<Rightarrow> nat \<Rightarrow> buffer \<Rightarrow> error + buffer" where
  "writeUInt16LE v off buf =
     (if v < 0 \<or> 65535 < v then Inl ERR_OUT_OF_RANGE
      else if length buf < off + 2 then Inl ERR_OUT_OF_RANGE
      else Inr (overwrite buf off (le16 v)))"

definition writeUInt32LE :: "int \<Rightarrow> nat \<Rightarrow> buffer \<Rightarrow> error + buffer" where
  "writeUInt32LE v off buf =
     (if v < 0 \<or> 4294967295 < v then Inl ERR_OUT_OF_RANGE
      else if length buf < off + 4 then Inl ERR_OUT_OF_RANGE
      else Inr (overwrite buf off (le32 v)))"

definition Buffer_copy :: "buffer \<Rightarrow> nat \<Rightarrow> buffer \<Rightarrow> error + buffer" where
  "Buffer_copy src off target =
     (if length target < off then Inl ERR_OUT_OF_RANGE
      else Inr (overwrite target off src))"

text \<open>One statement after the other on the same buffer; the first throw ends the function.\<close>

definition and_then :: "error + buffer \<Rightarrow> (buffer \<Rightarrow> error + buffer) \<Rightarrow> error + buffer" where
  "and_then r f = (case r of Inl e \<Rightarrow> Inl e | Inr buf \<Rightarrow> f buf)"

definition createWavBuffer :: "buffer \<Rightarrow> int \<Rightarrow> int \<Rightarrow> error + buffer" where
  "createWavBuffer pcmBuffer sampleRate channels =
     (let bitsPerSample = 16;
          byteRate = sampleRate * channels * (bitsPerSample div 8);
          blockAlign = channels * (bitsPerSample div 8);
          dataSize = length pcmBuffer;
          headerSize = 44
      in foldl and_then (Inr (Buffer_alloc (headerSize + dataSize)))
           [Buffer_write ''RIFF'' 0,
            writeUInt32LE (36 + int dataSize) 4,
            Buffer_write ''WAVE'' 8,
            Buffer_write ''fmt '' 12,
            writeUInt32LE 16 16,
            writeUInt16LE 1 20,
            writeUInt16LE channels 22,
            writeUInt32LE sampleRate 24,
            writeUInt32LE byteRate 28,
            writeUInt16LE blockAlign 32,
            writeUInt16LE bitsPerSample 34,
            Buffer_write ''data'' 36,
            writeUInt32LE (int dataSize) 40,
            Buffer_copy pcmBuffer headerSize])"

text \<open>
  Reading the container back: the little-endian readers of the Buffer class, and the
  canonical 44-byte header the encoder is compared with. \<open>wav_representable\<close> says
  that every header field holds its value: the 16-bit fields (channels, block align)
  and the 32-bit fields (sizes, sample rate, byte rate).
\<close>

definition readUInt16LE :: "buffer \<Rightarrow> nat \<Rightarrow> int" where
  "readUInt16LE buf off = uint (buf ! off) + 256 * uint (buf ! (off + 1))"

definition readUInt32LE :: "buffer \<Rightarrow> nat \<Rightarrow> int" where
  "readUInt32LE buf off =
     uint (buf ! off) + 256 * uint (buf ! (off + 1)) +
     65536 * uint (buf ! (off + 2)) + 16777216 * uint (buf ! (off + 3))"

definition wav_header :: "int \<Rightarrow> int \<Rightarrow> int \<Rightarrow> byte list" where
  "wav_header dataSize sampleRate channels =
     map of_char ''RIFF'' @ le32 (36 + dataSize) @ map of_char ''WAVE'' @
     map of_char ''fmt '' @ le32 16 @ le16 1 @ le16 channels @ le32 sampleRate @
     le32 (sampleRate * channels * 2) @ le16 (channels * 2) @ le16 16 @
     map of_char ''data'' @ le32 dataSize"

definition wav_representable :: "nat \<Rightarrow> int \<Rightarrow> int \<Rightarrow> bool" where
  "wav_representable dataSize sampleRate channels \<longleftrightarrow>
     36 + int dataSize \<le> 4294967295 \<and>
     0 \<le> channels \<and> channels * 2 \<le> 65535 \<and>
     0 \<le> sampleRate \<and> sampleRate \<le> 4294967295 \<and>
     sampleRate * channels * 2 \<le> 4294967295"

text \<open>What the header of a container \<open>wav\<close> made from \<open>N\<close> samples has to declare.\<close>

definition wav_header_declares :: "buffer \<Rightarrow> buffer \<Rightarrow> nat \<Rightarrow> int \<Rightarrow> int \<Rightarrow> bool" where
  "wav_header_declares wav pcm N R C \<longleftrightarrow>
     length wav = 44 + N * 2 \<and>
     take 4 wav = map of_char ''RIFF'' \<and>
     take 4 (drop 8 wav) = map of_char ''WAVE'' \<and>
     take 4 (drop 12 wav) = map of_char ''fmt '' \<and>
     take 4 (drop 36 wav) = map of_char ''data'' \<and>
     readUInt16LE wav 20 = 1 \<and>
     readUInt16LE wav 22 = C \<and>
     readUInt32LE wav 24 = R \<and>
     readUInt32LE wav 28 = R * C * 2 \<and>
     readUInt16LE wav 32 = C * 2 \<and>
     readUInt16LE wav 34 = 16 \<and>
     readUInt32LE wav 40 = int (N * 2) \<and>
     drop 44 wav = pcm"

section \<open>The upload client: sendAudioToBackend\<close>

text \<open>
  The arguments of a call, and the multipart form the call posts. The call encodes the
  samples first; a throw of the encoder rejects the call before anything is posted. The
  duration field is a floating-point number that nothing below reads, and is left out of both
  records; the file name is the speaker and the clock, the time stamp is the clock.
\<close>

type_synonym user_id = string
type_synonym guild_id = string

record send_args =
  arg_userId :: user_id
  arg_guildId :: guild_id
  arg_pcmBuffer :: buffer
  arg_sampleRate :: int
  arg_channels :: int

record form =
  audio :: buffer
  filename :: "user_id \<times> nat"
  form_userId :: user_id
  form_guildId :: guild_id
  form_sampleRate :: int
  form_channels :: int
  timestamp :: nat

definition sendAudioToBackend :: "nat \<Rightarrow> send_args \<Rightarrow> error + form" where
  "sendAudioToBackend clock a =
     (case createWavBuffer (arg_pcmBuffer a) (arg_sampleRate a) (arg_channels a) of
        Inl e \<Rightarrow> Inl e
      | Inr wavBuffer \<Rightarrow>
          Inr \<lparr>audio = wavBuffer, filename = (arg_userId a, clock),
               form_userId = arg_userId a, form_guildId = arg_guildId a,
               form_sampleRate = arg_sampleRate a, form_channels = arg_channels a,
               timestamp = clock\<rparr>)"

section \<open>The session registry: AudioRecorder\<close>

text \<open>
  The recorder keeps one \<open>userState\<close> object per subscribed speaker in a Map, modelled
  as an association list in insertion order (\<open>destroy\<close> iterates over it). Within one
  recorder an entry is only ever removed by \<open>destroy\<close>, after which no entry is created,
  so a speaker has at most one \<open>userState\<close> object and the closures that capture the
  object reach the same state as a lookup by \<open>userId\<close>. The fields \<open>subscription\<close>
  (always null), \<open>opusStream\<close> and \<open>decoder\<close> hold references to the streams of the
  speaker; the streams are named by the speaker.

  What the recorder does to the outside is kept as a list of effects, in the order it
  happens: subscriptions, console lines, calls of the upload client, posted forms and
  destroyed streams. \<open>Drained\<close> records the local \<open>pcmBuffer\<close> of
  \<open>_flushAndSend\<close> with the time, for the properties that speak of the flushed buffer.
\<close>

definition SAMPLE_RATE :: int where
  "SAMPLE_RATE = 48000"

definition CHANNELS :: int where
  "CHANNELS = 2"

definition default_SILENCE_DURATION_MS :: nat where
  "default_SILENCE_DURATION_MS = 1000"

record user_state =
  audioChunks :: "buffer list"
  isSpeaking :: bool
  silenceTimer :: "nat option"

datatype stream = Decoder user_id | OpusStream user_id

datatype message =
    Subscribing user_id
  | Skipping user_id nat
  | Sending user_id
  | FailedToSend user_id
  | SentAudio user_id
  | DecoderFailed user_id
  | OpusStreamFailed user_id
  | StreamClosed user_id
  | CleanedUp user_id

datatype effect =
    Subscribe user_id
  | ConsoleLog message
  | ConsoleError message
  | Drained nat user_id buffer
  | SendAudio send_args
  | HttpPost form
  | DestroyStream stream

text \<open>
  The object fields are \<open>guildId\<close>, \<open>users\<close> and \<open>destroyed\<close> (and \<open>connection\<close>,
  which the class never reads). The module constant
  \<open>SILENCE_DURATION_MS\<close> is read from the environment (1000 by default) and is a
  parameter. The rest is the runtime: the clock in milliseconds, the live timers
  (handle, due time, speaker of the callback) in the order they were set, and the next
  fresh handle. Every timer of the recorder runs the same callback with the same delay.
\<close>

record recorder =
  guildId :: guild_id
  users :: "(user_id \<times> user_state) list"
  destroyed :: bool
  SILENCE_DURATION_MS :: nat
  now :: nat
  timers :: "(nat \<times> nat \<times> user_id) list"
  nextHandle :: nat
  effects :: "effect list"

definition AudioRecorder :: "guild_id \<Rightarrow> nat \<Rightarrow> recorder" where
  "AudioRecorder g q =
     \<lparr>guildId = g, users = [], destroyed = False, SILENCE_DURATION_MS = q,
      now = 0, timers = [], nextHandle = 0, effects = []\<rparr>"

definition emit :: "effect list \<Rightarrow> recorder \<Rightarrow> recorder" where
  "emit es s = s\<lparr>effects := effects s @ es\<rparr>"

definition clearTimeout :: "nat \<Rightarrow> recorder \<Rightarrow> recorder" where
  "clearTimeout h s = s\<lparr>timers := filter (\<lambda>t. fst t \<noteq> h) (timers s)\<rparr>"

definition setTimeout :: "user_id \<Rightarrow> nat \<Rightarrow> recorder \<Rightarrow> nat \<times> recorder" where
  "setTimeout u ms s =
     (nextHandle s,
      s\<lparr>timers := timers s @ [(nextHandle s, now s + ms, u)],
        nextHandle := Suc (nextHandle s)\<rparr>)"

text \<open>An assignment to a field of the \<open>userState\<close> object of a speaker.\<close>

definition assign :: "user_id \<Rightarrow> (user_state \<Rightarrow> user_state) \<Rightarrow> recorder \<Rightarrow> recorder" where
  "assign u f s = s\<lparr>users := AList.map_entry u f (users s)\<rparr>"

definition resetSilenceTimer :: "user_id \<Rightarrow> recorder \<Rightarrow> recorder" where
  "resetSilenceTimer u s =
     (case map_of (users s) u of
        None \<Rightarrow> s
      | Some userState \<Rightarrow>
          (let s1 = (case silenceTimer userState of
                       None \<Rightarrow> s
                     | Some h \<Rightarrow> clearTimeout h s);
               (h', s2) = setTimeout u (SILENCE_DURATION_MS s1) s1
           in assign u (\<lambda>us. us\<lparr>silenceTimer := Some h'\<rparr>) s2))"

definition minBytes :: nat where
  "minBytes = nat ((SAMPLE_RATE * CHANNELS * 2 * 100) div 1000)"

text \<open>
  \<open>flushAndSend\<close> is the part of \<open>_flushAndSend\<close> that runs before the function
  waits for the upload: the drain, the floor, and the call of the upload client, which
  itself runs up to its post. \<open>flush_settled\<close> is the rest, run when the upload has
  succeeded (the client logs the status) or failed (the recorder logs the error).
\<close>

definition flushAndSend :: "user_id \<Rightarrow> recorder \<Rightarrow> recorder" where
  "flushAndSend u s =
     (case map_of (users s) u of
        None \<Rightarrow> s
      | Some userState \<Rightarrow>
          if audioChunks userState = [] then s
          else
            (let chunks = audioChunks userState;
                 s1 = assign u (\<lambda>us. us\<lparr>audioChunks := []\<rparr>) s;
                 pcmBuffer = concat chunks;
                 s2 = emit [Drained (now s1) u pcmBuffer] s1
             in if length pcmBuffer < minBytes
                then emit [ConsoleLog (Skipping u (length pcmBuffer))] s2
                else
                  (let a = \<lparr>arg_userId = u, arg_guildId = guildId s2,
                            arg_pcmBuffer = pcmBuffer, arg_sampleRate = SAMPLE_RATE,
                            arg_channels = CHANNELS\<rparr>
                   in emit ([ConsoleLog (Sending u), SendAudio a] @
                            (case sendAudioToBackend (now s2) a of
                               Inl e \<Rightarrow> []
                             | Inr f \<Rightarrow> [HttpPost f])) s2)))"

definition flush_settled :: "user_id \<Rightarrow> bool \<Rightarrow> recorder \<Rightarrow> recorder" where
  "flush_settled u ok s =
     (if ok then emit [ConsoleLog (SentAudio u)] s
      else emit [ConsoleError (FailedToSend u)] s)"

definition handleUserSpeaking :: "user_id \<Rightarrow> recorder \<Rightarrow> recorder" where
  "handleUserSpeaking u s =
     (if destroyed s then s
      else if map_of (users s) u \<noteq> None
      then resetSilenceTimer u (assign u (\<lambda>us. us\<lparr>isSpeaking := True\<rparr>) s)
      else
        (let s1 = emit [ConsoleLog (Subscribing u)] s;
             userState = \<lparr>audioChunks = [], isSpeaking = True, silenceTimer = None\<rparr>;
             s2 = emit [Subscribe u] s1;
             s3 = s2\<lparr>users := AList.update u userState (users s2)\<rparr>
         in resetSilenceTimer u s3))"

text \<open>The handlers that \<open>handleUserSpeaking\<close> installs on the streams of a speaker.\<close>

definition decoder_data :: "user_id \<Rightarrow> buffer \<Rightarrow> recorder \<Rightarrow> recorder" where
  "decoder_data u pcmChunk s =
     (if destroyed s then s
      else resetSilenceTimer u
             (assign u (\<lambda>us. us\<lparr>audioChunks := audioChunks us @ [pcmChunk],
                                 isSpeaking := True\<rparr>) s))"

definition decoder_error :: "user_id \<Rightarrow> recorder \<Rightarrow> recorder" where
  "decoder_error u s = emit [ConsoleError (DecoderFailed u)] s"

definition opusStream_error :: "user_id \<Rightarrow> recorder \<Rightarrow> recorder" where
  "opusStream_error u s = emit [ConsoleError (OpusStreamFailed u)] s"

definition opusStream_close :: "user_id \<Rightarrow> recorder \<Rightarrow> recorder" where
  "opusStream_close u s = flushAndSend u (emit [ConsoleLog (StreamClosed u)] s)"

text \<open>The callback of the silence timer, and a live timer coming due.\<close>

definition silence_timeout :: "user_id \<Rightarrow> recorder \<Rightarrow> recorder" where
  "silence_timeout u s = flushAndSend u (assign u (\<lambda>us. us\<lparr>isSpeaking := False\<rparr>) s)"

definition fire :: "nat \<Rightarrow> recorder \<Rightarrow> recorder" where
  "fire h s =
     (case find (\<lambda>t. fst t = h) (timers s) of
        None \<Rightarrow> s
      | Some (h', due, u) \<Rightarrow> silence_timeout u (clearTimeout h s))"

definition destroy_user :: "recorder \<Rightarrow> user_id \<Rightarrow> recorder" where
  "destroy_user s u =
     (case map_of (users s) u of
        None \<Rightarrow> s
      | Some userState \<Rightarrow>
          (let s1 = (case silenceTimer userState of
                       None \<Rightarrow> s
                     | Some h \<Rightarrow> clearTimeout h s);
               s2 = flushAndSend u s1;
               s3 = emit [DestroyStream (Decoder u), DestroyStream (OpusStream u)] s2
           in emit [ConsoleLog (CleanedUp u)] s3))"

definition destroy :: "recorder \<Rightarrow> recorder" where
  "destroy s =
     (let s1 = s\<lparr>destroyed := True\<rparr>;
          s2 = foldl destroy_user s1 (map fst (users s1))
      in s2\<lparr>users := []\<rparr>)"

subsection \<open>Events and time\<close>

text \<open>
  The recorder is driven by the speaking signal of the receiver, the data and close
  events of the streams, the settling of an upload, the teardown, and the passing of
  time. A stream has handlers only once the speaker was subscribed. When the clock
  moves to \<open>t\<close>, the timers due by then run in the order they were set, which is the
  order of their due times, each at its due time.
\<close>

datatype event =
    SpeakingStart user_id
  | DecoderData user_id buffer
  | DecoderError user_id
  | StreamError user_id
  | StreamClose user_id
  | UploadSettled user_id bool
  | Destroy
  | Elapse nat

fun fire_all :: "(nat \<times> nat \<times> user_id) list \<Rightarrow> recorder \<Rightarrow> recorder" where
  "fire_all [] s = s"
| "fire_all ((h, due, u) # ts) s = fire_all ts (fire h (s\<lparr>now := max (now s) due\<rparr>))"

definition advance :: "nat \<Rightarrow> recorder \<Rightarrow> recorder" where
  "advance t s =
     (let s1 = fire_all (filter (\<lambda>tm. fst (snd tm) \<le> t) (timers s)) s
      in s1\<lparr>now := max (now s1) t\<rparr>)"

definition subscribed :: "user_id \<Rightarrow> recorder \<Rightarrow> bool" where
  "subscribed u s \<longleftrightarrow> Subscribe u \<in> set (effects s)"

fun step :: "recorder \<Rightarrow> event \<Rightarrow> recorder" where
  "step s (SpeakingStart u) = handleUserSpeaking u s"
| "step s (DecoderData u c) = (if subscribed u s then decoder_data u c s else s)"
| "step s (DecoderError u) = (if subscribed u s then decoder_error u s else s)"
| "step s (StreamError u) = (if subscribed u s then opusStream_error u s else s)"
| "step s (StreamClose u) = (if subscribed u s then opusStream_close u s else s)"
| "step s (UploadSettled u ok) = flush_settled u ok s"
| "step s Destroy = destroy s"
| "step s (Elapse t) = advance t s"

definition exec :: "event list \<Rightarrow> recorder \<Rightarrow> recorder" where
  "exec evs s = foldl step s evs"

text \<open>Observations on the effects.\<close>

fun drained_of :: "effect \<Rightarrow> (nat \<times> user_id \<times> buffer) option" where
  "drained_of (Drained t u b) = Some (t, u, b)"
| "drained_of _ = None"

definition flushes :: "recorder \<Rightarrow> (nat \<times> user_id \<times> buffer) list" where
  "flushes s = List.map_filter drained_of (effects s)"

fun is_error :: "effect \<Rightarrow> bool" where
  "is_error (ConsoleError m) = True"
| "is_error _ = False"

fun sent_of :: "effect \<Rightarrow> send_args option" where
  "sent_of (SendAudio a) = Some a"
| "sent_of _ = None"

fun posted_of :: "effect \<Rightarrow> form option" where
  "posted_of (HttpPost f) = Some f"
| "posted_of _ = None"

fun destroyed_of :: "effect \<Rightarrow> stream option" where
  "destroyed_of (DestroyStream x) = Some x"
| "destroyed_of _ = None"

fun subscribed_of :: "effect \<Rightarrow> user_id option" where
  "subscribed_of (Subscribe u) = Some u"
| "subscribed_of _ = None"

definition upload_calls :: "recorder \<Rightarrow> send_args list" where
  "upload_calls s = List.map_filter sent_of (effects s)"

definition posts :: "recorder \<Rightarrow> form list" where
  "posts s = List.map_filter posted_of (effects s)"

definition errors :: "recorder \<Rightarrow> effect list" where
  "errors s = filter is_error (effects s)"

definition streams_destroyed :: "recorder \<Rightarrow> stream list" where
  "streams_destroyed s = List.map_filter destroyed_of (effects s)"

definition subscriptions :: "recorder \<Rightarrow> user_id list" where
  "subscriptions s = List.map_filter subscribed_of (effects s)"

definition buffer_of :: "user_id \<Rightarrow> recorder \<Rightarrow> buffer list" where
  "buffer_of u s = (case map_of (users s) u of None \<Rightarrow> [] | Some us \<Rightarrow> audioChunks us)"

definition timers_of :: "user_id \<Rightarrow> recorder \<Rightarrow> (nat \<times> nat \<times> user_id) list" where
  "timers_of u s = filter (\<lambda>t. snd (snd t) = u) (timers s)"

text \<open>
  Two facts that hold of a recorder whatever happens to it. Every live timer is the one
  whose handle the \<open>userState\<close> of its speaker stores, and handles are never reused. And
  the speakers in the Map are the speakers subscribed to, in the same order, until
  \<open>destroy\<close> empties the Map for good.
\<close>

definition handle_of :: "user_id \<Rightarrow> recorder \<Rightarrow> nat option" where
  "handle_of u s = (case map_of (users s) u of None \<Rightarrow> None | Some us \<Rightarrow> silenceTimer us)"

definition timers_tracked :: "recorder \<Rightarrow> bool" where
  "timers_tracked s \<longleftrightarrow>
     distinct (map fst (timers s)) \<and>
     list_all (\<lambda>t. fst t < nextHandle s \<and> handle_of (snd (snd t)) s = Some (fst t))
       (timers s)"

definition registry_consistent :: "recorder \<Rightarrow> bool" where
  "registry_consistent s \<longleftrightarrow>
     distinct (subscriptions s) \<and>
     (if destroyed s then users s = [] else map fst (users s) = subscriptions s)"

subsection \<open>One speaker talking\<close>

text \<open>
  The events around the chunks of one speaker \<open>u\<close>. An event is a bystander when it
  leaves the buffer and the timer of \<open>u\<close> alone: the events of other speakers, stream
  errors, settled uploads. Before a chunk that arrives at \<open>t\<close> there may be bystanders,
  speaking signals (also for \<open>u\<close>) and clock readings up to \<open>t\<close>; after the last chunk
  there may be bystanders and the clock. A segment is a chunk with its time and the
  events before it. The chunk times do not go back, and each gap between consecutive
  chunks is shorter than the quiet period. \<open>clock\<close> is the time after a list of events.
\<close>

fun bystander :: "user_id \<Rightarrow> event \<Rightarrow> bool" where
  "bystander u (SpeakingStart v) = (v \<noteq> u)"
| "bystander u (DecoderData v c) = (v \<noteq> u)"
| "bystander u (DecoderError v) = True"
| "bystander u (StreamError v) = True"
| "bystander u (StreamClose v) = (v \<noteq> u)"
| "bystander u (UploadSettled v ok) = True"
| "bystander u Destroy = False"
| "bystander u (Elapse t) = False"

fun before_chunk :: "user_id \<Rightarrow> nat \<Rightarrow> event \<Rightarrow> bool" where
  "before_chunk u t (Elapse t') = (t' \<le> t)"
| "before_chunk u t (SpeakingStart v) = True"
| "before_chunk u t e = bystander u e"

fun after_chunks :: "user_id \<Rightarrow> event \<Rightarrow> bool" where
  "after_chunks u (Elapse t) = True"
| "after_chunks u e = bystander u e"

type_synonym segment = "event list \<times> nat \<times> buffer"

definition chunk_time :: "segment \<Rightarrow> nat" where
  "chunk_time seg = fst (snd seg)"

definition chunk_data :: "segment \<Rightarrow> buffer" where
  "chunk_data seg = snd (snd seg)"

definition segment_events :: "user_id \<Rightarrow> segment \<Rightarrow> event list" where
  "segment_events u seg = fst seg @ [Elapse (chunk_time seg), DecoderData u (chunk_data seg)]"

definition utterance_events :: "user_id \<Rightarrow> segment list \<Rightarrow> event list \<Rightarrow> event list" where
  "utterance_events u segs post = concat (map (segment_events u) segs) @ post"

fun gaps_shorter :: "nat \<Rightarrow> nat list \<Rightarrow> bool" where
  "gaps_shorter q (t # t' # ts) = (t \<le> t' \<and> t' - t < q \<and> gaps_shorter q (t' # ts))"
| "gaps_shorter q ts = True"

definition well_timed :: "nat \<Rightarrow> user_id \<Rightarrow> segment list \<Rightarrow> bool" where
  "well_timed q u segs \<longleftrightarrow>
     list_all (\<lambda>seg. list_all (before_chunk u (chunk_time seg)) (fst seg)) segs \<and>
     gaps_shorter q (map chunk_time segs)"

fun clock :: "nat \<Rightarrow> event list \<Rightarrow> nat" where
  "clock t [] = t"
| "clock t (Elapse t' # es) = clock (max t t') es"
| "clock t (e # es) = clock t es"

definition flushes_of :: "user_id \<Rightarrow> recorder \<Rightarrow> (nat \<times> user_id \<times> buffer) list" where
  "flushes_of u s = filter (\<lambda>x. fst (snd x) = u) (flushes s)"

definition upload_calls_of :: "user_id \<Rightarrow> recorder \<Rightarrow> send_args list" where
  "upload_calls_of u s = filter (\<lambda>a. arg_userId a = u) (upload_calls s)"

text \<open>
  What holds of a recorder besides \<open>timers_tracked\<close> and \<open>registry_consistent\<close>: the
  timers are in the order of their due times, none due later than a quiet period from
  now, and no two speakers store the same handle. \<open>idle\<close> and \<open>armed\<close> describe the
  session of \<open>u\<close> in a recorder that is not destroyed: with an empty buffer, or with the
  chunks so far in the buffer and exactly one live timer; \<open>F\<close> is what was drained and
  uploaded for \<open>u\<close> so far.
\<close>

definition timers_in_order :: "recorder \<Rightarrow> bool" where
  "timers_in_order s \<longleftrightarrow>
     sorted (map (\<lambda>t. fst (snd t)) (timers s)) \<and>
     list_all (\<lambda>t. fst (snd t) \<le> now s + SILENCE_DURATION_MS s) (timers s)"

definition handles_fresh :: "recorder \<Rightarrow> bool" where
  "handles_fresh s \<longleftrightarrow>
     (\<forall>k h. handle_of k s = Some h \<longrightarrow> h < nextHandle s) \<and>
     (\<forall>k k' h. handle_of k s = Some h \<longrightarrow> handle_of k' s = Some h \<longrightarrow> k = k')"

definition recorder_inv :: "recorder \<Rightarrow> bool" where
  "recorder_inv s \<longleftrightarrow>
     timers_tracked s \<and> timers_in_order s \<and> handles_fresh s \<and> registry_consistent s"

definition session_ok :: "guild_id \<Rightarrow> nat \<Rightarrow> user_id \<Rightarrow> recorder \<Rightarrow> bool" where
  "session_ok g q u s \<longleftrightarrow>
     recorder_inv s \<and> \<not> destroyed s \<and> guildId s = g \<and> SILENCE_DURATION_MS s = q \<and>
     u \<in> set (subscriptions s)"

definition idle ::
    "guild_id \<Rightarrow> nat \<Rightarrow> user_id \<Rightarrow>
     (nat \<times> user_id \<times> buffer) list \<times> send_args list \<Rightarrow> recorder \<Rightarrow> bool" where
  "idle g q u F s \<longleftrightarrow>
     session_ok g q u s \<and> buffer_of u s = [] \<and> (flushes_of u s, upload_calls_of u s) = F"

definition armed ::
    "guild_id \<Rightarrow> nat \<Rightarrow> user_id \<Rightarrow> buffer list \<Rightarrow>
     (nat \<times> user_id \<times> buffer) list \<times> send_args list \<Rightarrow> nat \<Rightarrow> nat \<Rightarrow> recorder \<Rightarrow> bool" where
  "armed g q u B F h d s \<longleftrightarrow>
     session_ok g q u s \<and> B \<noteq> [] \<and> buffer_of u s = B \<and> timers_of u s = [(h, d, u)] \<and>
     (flushes_of u s, upload_calls_of u s) = F"

text \<open>
  The upload calls set against the drained buffers: a call belongs to a drain of at
  least \<open>minBytes\<close> bytes. A list of effects is balanced when its calls are its drains
  at or above the floor, one for one and in order.
\<close>

fun upload_pair_of :: "effect \<Rightarrow> (user_id \<times> buffer) option" where
  "upload_pair_of (SendAudio a) = Some (arg_userId a, arg_pcmBuffer a)"
| "upload_pair_of e = None"

fun big_drain_of :: "effect \<Rightarrow> (user_id \<times> buffer) option" where
  "big_drain_of (Drained t u b) = (if minBytes \<le> length b then Some (u, b) else None)"
| "big_drain_of e = None"

definition balanced :: "effect list \<Rightarrow> bool" where
  "balanced es \<longleftrightarrow> List.map_filter upload_pair_of es = List.map_filter big_drain_of es"

definition extends :: "recorder \<Rightarrow> recorder \<Rightarrow> bool" where
  "extends s s' \<longleftrightarrow> (\<exists>es. effects s' = effects s @ es \<and> balanced es)"

section \<open>The voice session manager: joinVoiceChannel and leaveVoiceChannel\<close>

text \<open>
  The module keeps a Map from guild to recorder. The connections belong to the voice
  library, which keeps its own registry from guild to connection (\<open>getVoiceConnection\<close>
  reads it). Connections and recorders are objects: the model numbers them as they are
  created and keeps the state of every object ever created, so that an object taken out
  of a Map can still be looked at.

  What the model takes from the library: \<open>destroy\<close> on a connection throws when the
  connection is destroyed already; otherwise it takes the connection out of the
  registry, if it is the one registered for its guild, marks it destroyed and runs the
  handlers of the destroyed state at once. \<open>wired\<close> says that the join has installed
  its handlers on the connection, which it does when the connection has become ready.
\<close>

record connection =
  conn_guild :: guild_id
  conn_destroyed :: bool
  wired :: bool

datatype manager_error = AlreadyDestroyed

datatype action =
    ConnectionCreated nat
  | ConnectionDestroyed nat
  | RecorderCreated nat
  | RecorderDestroyed nat

record manager =
  connections :: "nat \<Rightarrow> connection"
  nextConnection :: nat
  tracked :: "guild_id \<rightharpoonup> nat"
  recorder_objs :: "nat \<Rightarrow> recorder"
  nextRecorder :: nat
  recorders :: "guild_id \<rightharpoonup> nat"
  actions :: "action list"

text \<open>The two statements \<open>recorders.get(id)?.destroy()\<close> and \<open>recorders.delete(id)\<close>.\<close>

definition recorders_get_destroy :: "guild_id \<Rightarrow> manager \<Rightarrow> manager" where
  "recorders_get_destroy g m =
     (case recorders m g of
        None \<Rightarrow> m
      | Some r \<Rightarrow>
          m\<lparr>recorder_objs := (recorder_objs m)(r := destroy (recorder_objs m r)),
            actions := actions m @ [RecorderDestroyed r]\<rparr>)"

definition recorders_delete :: "guild_id \<Rightarrow> manager \<Rightarrow> manager" where
  "recorders_delete g m = m\<lparr>recorders := (recorders m)(g := None)\<rparr>"

text \<open>The handler of the destroyed state that the join installs.\<close>

definition on_destroyed :: "guild_id \<Rightarrow> manager \<Rightarrow> manager" where
  "on_destroyed g m = recorders_delete g (recorders_get_destroy g m)"

definition connection_destroy :: "nat \<Rightarrow> manager \<Rightarrow> manager_error + manager" where
  "connection_destroy c m =
     (let conn = connections m c
      in if conn_destroyed conn then Inl AlreadyDestroyed
         else
           (let m1 = (if tracked m (conn_guild conn) = Some c
                      then m\<lparr>tracked := (tracked m)(conn_guild conn := None)\<rparr> else m);
                m2 = m1\<lparr>connections := (connections m1)(c := conn\<lparr>conn_destroyed := True\<rparr>),
                        actions := actions m1 @ [ConnectionDestroyed c]\<rparr>
            in Inr (if wired conn then on_destroyed (conn_guild conn) m2 else m2)))"

text \<open>
  The join of the library: a connection registered for the guild is used again,
  otherwise a new one is created and registered.
\<close>

definition djsJoinVoiceChannel :: "guild_id \<Rightarrow> manager \<Rightarrow> nat \<times> manager" where
  "djsJoinVoiceChannel g m =
     (case tracked m g of
        Some c \<Rightarrow> (c, m)
      | None \<Rightarrow>
          (let c = nextConnection m
           in (c, m\<lparr>connections := (connections m)
                       (c := \<lparr>conn_guild = g, conn_destroyed = False, wired = False\<rparr>),
                     nextConnection := Suc c,
                     tracked := (tracked m)(g \<mapsto> c),
                     actions := actions m @ [ConnectionCreated c]\<rparr>)))"

text \<open>
  \<open>joinVoiceChannel\<close> waits for the connection to become ready. \<open>teardown_existing\<close>
  and \<open>joinVoiceChannel_begin\<close> are the part before the wait,
  \<open>joinVoiceChannel_ready\<close> the part after it when the connection is ready (with the
  quiet period of the new recorder), \<open>joinVoiceChannel_failed\<close> the part after it
  when it is not: the connection is destroyed and the join throws.
\<close>

definition teardown_existing :: "guild_id \<Rightarrow> manager \<Rightarrow> manager_error + manager" where
  "teardown_existing g m =
     (case tracked m g of
        None \<Rightarrow> Inr m
      | Some existingConnection \<Rightarrow>
          (case connection_destroy existingConnection m of
             Inl e \<Rightarrow> Inl e
           | Inr m1 \<Rightarrow> Inr (recorders_delete g (recorders_get_destroy g m1))))"

definition joinVoiceChannel_begin :: "guild_id \<Rightarrow> manager \<Rightarrow> manager_error + nat \<times> manager" where
  "joinVoiceChannel_begin g m =
     (case teardown_existing g m of
        Inl e \<Rightarrow> Inl e
      | Inr m1 \<Rightarrow> Inr (djsJoinVoiceChannel g m1))"

definition joinVoiceChannel_ready :: "nat \<Rightarrow> guild_id \<Rightarrow> nat \<Rightarrow> manager \<Rightarrow> manager" where
  "joinVoiceChannel_ready c g q m =
     (let r = nextRecorder m
      in m\<lparr>recorder_objs := (recorder_objs m)(r := AudioRecorder g q),
           nextRecorder := Suc r,
           recorders := (recorders m)(g \<mapsto> r),
           connections := (connections m)(c := (connections m c)\<lparr>wired := True\<rparr>),
           actions := actions m @ [RecorderCreated r]\<rparr>)"

definition joinVoiceChannel_failed :: "nat \<Rightarrow> manager \<Rightarrow> manager" where
  "joinVoiceChannel_failed c m =
     (case connection_destroy c m of Inl e \<Rightarrow> m | Inr m1 \<Rightarrow> m1)"

text \<open>
  The handler of the disconnected state, when neither recovery signal came in time: a
  throw of \<open>destroy\<close> ends the handler before it reaches the recorder.
\<close>

definition disconnected_unrecoverable :: "nat \<Rightarrow> guild_id \<Rightarrow> manager \<Rightarrow> manager" where
  "disconnected_unrecoverable c g m =
     (case connection_destroy c m of
        Inl e \<Rightarrow> m
      | Inr m1 \<Rightarrow> recorders_delete g (recorders_get_destroy g m1))"

definition leaveVoiceChannel :: "guild_id \<Rightarrow> manager \<Rightarrow> manager_error + bool \<times> manager" where
  "leaveVoiceChannel g m =
     (case tracked m g of
        None \<Rightarrow> Inr (False, m)
      | Some c \<Rightarrow>
          (case connection_destroy c (recorders_delete g (recorders_get_destroy g m)) of
             Inl e \<Rightarrow> Inl e
           | Inr m1 \<Rightarrow> Inr (True, m1)))"

text \<open>
  An event that reaches a recorder object: the join hands the speaking signal of the
  receiver to \<open>handleUserSpeaking\<close> of the recorder it created, and the streams and
  timers of a recorder reach that recorder whether or not it is still in the Map.
\<close>

definition recorder_event :: "nat \<Rightarrow> event \<Rightarrow> manager \<Rightarrow> manager" where
  "recorder_event r e m = m\<lparr>recorder_objs := (recorder_objs m)(r := step (recorder_objs m r) e)\<rparr>"

text \<open>The module when it is loaded: no connection, no recorder.\<close>

definition no_manager :: manager where
  "no_manager =
     \<lparr>connections = (\<lambda>c. \<lparr>conn_guild = [], conn_destroyed = True, wired = False\<rparr>),
      nextConnection = 0, tracked = Map.empty,
      recorder_objs = (\<lambda>r. AudioRecorder [] default_SILENCE_DURATION_MS), nextRecorder = 0,
      recorders = Map.empty, actions = []\<rparr>"

section \<open>Properties of the container encoder\<close>

lemma length_le16 [simp]: "length (le16 v) = 2"
  by (simp add: le16_def)

lemma length_le32 [simp]: "length (le32 v) = 4"
  by (simp add: le32_def)

text \<open>The writes go through the buffer from left to right: each one extends the part
  already written and shortens the zeros behind it.\<close>

lemma overwrite_zeros:
  "length p = off \<Longrightarrow> length bs \<le> k \<Longrightarrow>
   overwrite (p @ replicate k 0) off bs = (p @ bs) @ replicate (k - length bs) 0"
  by (simp add: overwrite_def)

lemma Buffer_write_zeros:
  "length p = off \<Longrightarrow> length str \<le> k \<Longrightarrow>
   Buffer_write str off (p @ replicate k 0) =
     Inr ((p @ map of_char str) @ replicate (k - length str) 0)"
  by (simp add: Buffer_write_def overwrite_zeros)

lemma writeUInt16LE_zeros:
  "length p = off \<Longrightarrow> 2 \<le> k \<Longrightarrow> 0 \<le> v \<Longrightarrow> v \<le> 65535 \<Longrightarrow>
   writeUInt16LE v off (p @ replicate k 0) = Inr ((p @ le16 v) @ replicate (k - 2) 0)"
  by (simp add: writeUInt16LE_def overwrite_zeros)

lemma writeUInt32LE_zeros:
  "length p = off \<Longrightarrow> 4 \<le> k \<Longrightarrow> 0 \<le> v \<Longrightarrow> v \<le> 4294967295 \<Longrightarrow>
   writeUInt32LE v off (p @ replicate k 0) = Inr ((p @ le32 v) @ replicate (k - 4) 0)"
  by (simp add: writeUInt32LE_def overwrite_zeros)

lemma Buffer_copy_zeros:
  "length p = off \<Longrightarrow> Buffer_copy src off (p @ replicate (length src) 0) = Inr (p @ src)"
  by (simp add: Buffer_copy_def overwrite_def)

lemma and_then_Inr: "and_then (Inr b) f = f b"
  by (simp add: and_then_def)

lemma createWavBuffer_closed_form:
  assumes "wav_representable (length pcm) R C"
  shows "createWavBuffer pcm R C = Inr (wav_header (int (length pcm)) R C @ pcm)"
proof -
  let ?n = "length pcm"
  let ?z = "\<lambda>k. replicate k (0::byte)"
  let ?p1 = "[] @ map of_char ''RIFF'' :: byte list"
  let ?p2 = "?p1 @ le32 (36 + int ?n)"
  let ?p3 = "?p2 @ map of_char ''WAVE''"
  let ?p4 = "?p3 @ map of_char ''fmt ''"
  let ?p5 = "?p4 @ le32 16"
  let ?p6 = "?p5 @ le16 1"
  let ?p7 = "?p6 @ le16 C"
  let ?p8 = "?p7 @ le32 R"
  let ?p9 = "?p8 @ le32 (R * C * 2)"
  let ?p10 = "?p9 @ le16 (C * 2)"
  let ?p11 = "?p10 @ le16 16"
  let ?p12 = "?p11 @ map of_char ''data''"
  let ?p13 = "?p12 @ le32 (int ?n)"
  from assms have b: "36 + int ?n \<le> 4294967295" "0 \<le> C" "C * 2 \<le> 65535" "0 \<le> R"
    "R \<le> 4294967295" "R * C * 2 \<le> 4294967295" "0 \<le> R * C * 2" "C \<le> 65535"
    by (simp_all add: wav_representable_def)
  have s0: "Buffer_alloc (44 + ?n) = [] @ ?z (44 + ?n)"
    by (simp add: Buffer_alloc_def)
  have s1: "Buffer_write ''RIFF'' 0 ([] @ ?z (44 + ?n)) = Inr (?p1 @ ?z (40 + ?n))"
    by (subst Buffer_write_zeros) simp_all
  have s2: "writeUInt32LE (36 + int ?n) 4 (?p1 @ ?z (40 + ?n)) = Inr (?p2 @ ?z (36 + ?n))"
    using b by (subst writeUInt32LE_zeros) simp_all
  have s3: "Buffer_write ''WAVE'' 8 (?p2 @ ?z (36 + ?n)) = Inr (?p3 @ ?z (32 + ?n))"
    by (subst Buffer_write_zeros) simp_all
  have s4: "Buffer_write ''fmt '' 12 (?p3 @ ?z (32 + ?n)) = Inr (?p4 @ ?z (28 + ?n))"
    by (subst Buffer_write_zeros) simp_all
  have s5: "writeUInt32LE 16 16 (?p4 @ ?z (28 + ?n)) = Inr (?p5 @ ?z (24 + ?n))"
    by (subst writeUInt32LE_zeros) simp_all
  have s6: "writeUInt16LE 1 20 (?p5 @ ?z (24 + ?n)) = Inr (?p6 @ ?z (22 + ?n))"
    by (subst writeUInt16LE_zeros) simp_all
  have s7: "writeUInt16LE C 22 (?p6 @ ?z (22 + ?n)) = Inr (?p7 @ ?z (20 + ?n))"
    using b by (subst writeUInt16LE_zeros) simp_all
  have s8: "writeUInt32LE R 24 (?p7 @ ?z (20 + ?n)) = Inr (?p8 @ ?z (16 + ?n))"
    using b by (subst writeUInt32LE_zeros) simp_all
  have s9: "writeUInt32LE (R * C * 2) 28 (?p8 @ ?z (16 + ?n)) = Inr (?p9 @ ?z (12 + ?n))"
    using b by (subst writeUInt32LE_zeros) simp_all
  have s10: "writeUInt16LE (C * 2) 32 (?p9 @ ?z (12 + ?n)) = Inr (?p10 @ ?z (10 + ?n))"
    using b by (subst writeUInt16LE_zeros) simp_all
  have s11: "writeUInt16LE 16 34 (?p10 @ ?z (10 + ?n)) = Inr (?p11 @ ?z (8 + ?n))"
    by (subst writeUInt16LE_zeros) simp_all
  have s12: "Buffer_write ''data'' 36 (?p11 @ ?z (8 + ?n)) = Inr (?p12 @ ?z (4 + ?n))"
    by (subst Buffer_write_zeros) simp_all
  have s13: "writeUInt32LE (int ?n) 40 (?p12 @ ?z (4 + ?n)) = Inr (?p13 @ ?z ?n)"
    using b by (subst writeUInt32LE_zeros) simp_all
  have s14: "Buffer_copy pcm 44 (?p13 @ ?z ?n) = Inr (?p13 @ pcm)"
    by (subst Buffer_copy_zeros) simp_all
  have h: "?p13 = wav_header (int ?n) R C"
    by (simp add: wav_header_def)
  have d: "(16::int) div 8 = 2"
    by simp
  have "createWavBuffer pcm R C = Inr (?p13 @ pcm)"
    unfolding createWavBuffer_def Let_def foldl.simps d
    by (simp only: s0 s1 s2 s3 s4 s5 s6 s7 s8 s9 s10 s11 s12 s13 s14 and_then_Inr)
  then show ?thesis by (simp only: h)
qed

text \<open>Reading a field back takes the bytes of the value apart and puts them together.\<close>

lemma le16_read:
  "0 \<le> v \<Longrightarrow> v \<le> 65535 \<Longrightarrow>
   uint (word_of_int v :: byte) + 256 * uint (word_of_int (v div 256) :: byte) = v"
  by (simp add: uint_word_of_int take_bit_eq_mod)

lemma le32_read:
  assumes "0 \<le> v" "v \<le> 4294967295"
  shows "uint (word_of_int v :: byte) + 256 * uint (word_of_int (v div 256) :: byte) +
     65536 * uint (word_of_int (v div 65536) :: byte) +
     16777216 * uint (word_of_int (v div 16777216) :: byte) = v"
proof -
  have a: "v div 65536 = v div 256 div 256"
    by (simp add: zdiv_zmult2_eq)
  have b: "v div 16777216 = v div 256 div 256 div 256"
    by (simp add: zdiv_zmult2_eq)
  have c: "v div 256 div 256 div 256 mod 256 = v div 256 div 256 div 256"
    using assms by (simp add: zdiv_zmult2_eq)
  define x where "x = v div 256"
  define y where "y = x div 256"
  define z where "z = y div 256"
  have e1: "v = v mod 256 + 256 * x" and e2: "x = x mod 256 + 256 * y"
    and e3: "y = y mod 256 + 256 * z"
    by (simp_all add: x_def y_def z_def)
  have "v mod 256 + 256 * (x mod 256) + 65536 * (y mod 256) + 16777216 * z = v"
    using e1 e2 e3 by linarith
  then show ?thesis
    unfolding a b by (simp add: uint_word_of_int take_bit_eq_mod c x_def y_def z_def)
qed

lemma wav_header_declares_closed_form:
  assumes "wav_representable (N * 2) R C" "length pcm = N * 2"
  shows "wav_header_declares (wav_header (int (N * 2)) R C @ pcm) pcm N R C"
proof -
  from assms have b: "36 + int (N * 2) \<le> 4294967295" "0 \<le> C" "C * 2 \<le> 65535" "0 \<le> R"
    "R \<le> 4294967295" "R * C * 2 \<le> 4294967295" "0 \<le> R * C * 2" "C \<le> 65535"
    by (simp_all add: wav_representable_def)
  let ?w = "wav_header (int (N * 2)) R C @ pcm"
  have l: "length ?w = 44 + N * 2"
    using assms by (simp add: wav_header_def)
  have t: "take 4 ?w = map of_char ''RIFF''" "take 4 (drop 8 ?w) = map of_char ''WAVE''"
    "take 4 (drop 12 ?w) = map of_char ''fmt ''" "take 4 (drop 36 ?w) = map of_char ''data''"
    by (simp_all add: wav_header_def le32_def le16_def)
  have f1: "readUInt16LE ?w 20 = 1"
    by (simp add: readUInt16LE_def wav_header_def le32_def le16_def)
  have f2: "readUInt16LE ?w 22 = C"
    using le16_read [of C] b by (simp add: readUInt16LE_def wav_header_def le32_def le16_def)
  have f3: "readUInt32LE ?w 24 = R"
    using le32_read [of R] b by (simp add: readUInt32LE_def wav_header_def le32_def le16_def)
  have f4: "readUInt32LE ?w 28 = R * C * 2"
    using le32_read [of "R * C * 2"] b
    by (simp add: readUInt32LE_def wav_header_def le32_def le16_def)
  have f5: "readUInt16LE ?w 32 = C * 2"
    using le16_read [of "C * 2"] b
    by (simp add: readUInt16LE_def wav_header_def le32_def le16_def)
  have f6: "readUInt16LE ?w 34 = 16"
    by (simp add: readUInt16LE_def wav_header_def le32_def le16_def)
  have f7: "readUInt32LE ?w 40 = int (N * 2)"
    using le32_read [of "int (N * 2)"] b
    by (simp add: readUInt32LE_def wav_header_def le32_def le16_def)
  have d: "drop 44 ?w = pcm"
    by (simp add: wav_header_def)
  show ?thesis
    unfolding wav_header_declares_def using l t f1 f2 f3 f4 f5 f6 f7 d by blast
qed

text \<open>
  C2, as stated, for every sample rate and channel count: the encoder produces a buffer
  of 44 + N * 2 bytes. It fails where a header field cannot hold its value: with 40000
  channels the block align is 80000, the 16-bit write throws and no buffer is produced.
\<close>

theorem createWavBuffer_out_of_range_counterexample:
  "createWavBuffer [] 48000 40000 = Inl ERR_OUT_OF_RANGE"
  by (simp add: createWavBuffer_def Let_def and_then_def Buffer_alloc_def Buffer_write_def
      writeUInt32LE_def writeUInt16LE_def overwrite_def)

lemma foldl_and_then_Inl: "foldl and_then (Inl e) fs = Inl e"
  by (induction fs) (simp_all add: and_then_def)

lemma foldl_and_then_throws:
  assumes "f \<in> set fs" and "\<And>buf. f buf = Inl ERR_OUT_OF_RANGE"
  shows "foldl and_then r fs = Inl ERR_OUT_OF_RANGE"
  using assms(1)
proof (induction fs arbitrary: r)
  case Nil
  then show ?case by simp
next
  case (Cons g gs)
  show ?case
  proof (cases r)
    case (Inl e)
    have "foldl and_then (Inl e) (g # gs) = Inl e"
      by (rule foldl_and_then_Inl)
    then show ?thesis
      using Inl by (cases e) simp
  next
    case (Inr buf)
    show ?thesis
    proof (cases "g = f")
      case True
      then have "and_then r g = Inl ERR_OUT_OF_RANGE"
        using Inr assms(2) [of buf] by (simp add: and_then_def)
      then show ?thesis
        by (simp add: foldl_and_then_Inl)
    next
      case False
      then have "f \<in> set gs"
        using Cons.prems by simp
      then show ?thesis
        using Cons.IH by simp
    qed
  qed
qed

lemma createWavBuffer_not_representable:
  assumes "\<not> wav_representable (length pcm) R C"
  shows "createWavBuffer pcm R C = Inl ERR_OUT_OF_RANGE"
proof -
  let ?n = "int (length pcm)"
  have d: "(16::int) div 8 = 2"
    by simp
  from assms consider "4294967295 < 36 + ?n" | "C < 0 \<or> 65535 < C * 2"
    | "R < 0 \<or> 4294967295 < R" | "4294967295 < R * C * 2"
    by (auto simp: wav_representable_def)
  then obtain f where f: "f \<in> {writeUInt32LE (36 + ?n) 4, writeUInt16LE C 22,
      writeUInt16LE (C * 2) 32, writeUInt32LE R 24, writeUInt32LE (R * C * 2) 28}"
    and t: "\<And>buf. f buf = Inl ERR_OUT_OF_RANGE"
  proof cases
    case 1
    then have "writeUInt32LE (36 + ?n) 4 buf = Inl ERR_OUT_OF_RANGE" for buf
      by (simp add: writeUInt32LE_def)
    then show ?thesis using that by blast
  next
    case 2
    then consider "C < 0" | "65535 < C * 2" by blast
    then show ?thesis
    proof cases
      case 1
      then have "writeUInt16LE C 22 buf = Inl ERR_OUT_OF_RANGE" for buf
        by (simp add: writeUInt16LE_def)
      then show ?thesis using that by blast
    next
      case 2
      then have "writeUInt16LE (C * 2) 32 buf = Inl ERR_OUT_OF_RANGE" for buf
        by (simp add: writeUInt16LE_def)
      then show ?thesis using that by blast
    qed
  next
    case 3
    then have "writeUInt32LE R 24 buf = Inl ERR_OUT_OF_RANGE" for buf
      by (auto simp: writeUInt32LE_def)
    then show ?thesis using that by blast
  next
    case 4
    then have "writeUInt32LE (R * C * 2) 28 buf = Inl ERR_OUT_OF_RANGE" for buf
      by (simp add: writeUInt32LE_def)
    then show ?thesis using that by blast
  qed
  show ?thesis
    unfolding createWavBuffer_def Let_def d
    by (rule foldl_and_then_throws [OF _ t]) (use f in auto)
qed

text \<open>
  C2, amended: for every buffer of N interleaved 16-bit samples (N * 2 bytes), sample
  rate R and channel count C. Where the header fields are representable (36 + N * 2, R
  and R * C * 2 in 32 bits, C * 2 in 16 bits, none negative), the encoder returns a
  buffer of exactly 44 + N * 2 bytes that carries the four chunk tags, declares format
  code 1, channels C, sample rate R, byte rate R * C * 2, block align C * 2, 16 bits per
  sample and a data size of N * 2, and ends with the payload unchanged. Where they are
  not, the encoder throws the range error and returns no buffer.
\<close>

theorem createWavBuffer_header_roundtrip:
  assumes "length pcm = N * 2"
  shows "(wav_representable (N * 2) R C \<longrightarrow>
            (\<exists>wav. createWavBuffer pcm R C = Inr wav \<and> wav_header_declares wav pcm N R C)) \<and>
         (\<not> wav_representable (N * 2) R C \<longrightarrow>
            createWavBuffer pcm R C = Inl ERR_OUT_OF_RANGE)"
proof (intro conjI impI)
  assume r: "wav_representable (N * 2) R C"
  have "createWavBuffer pcm R C = Inr (wav_header (int (N * 2)) R C @ pcm)"
    using createWavBuffer_closed_form [of pcm R C] assms r by simp
  then show "\<exists>wav. createWavBuffer pcm R C = Inr wav \<and> wav_header_declares wav pcm N R C"
    using wav_header_declares_closed_form [OF r assms] by simp
next
  assume "\<not> wav_representable (N * 2) R C"
  then show "createWavBuffer pcm R C = Inl ERR_OUT_OF_RANGE"
    using createWavBuffer_not_representable [of pcm R C] assms by simp
qed

theorem createWavBuffer_header_roundtrip_witness:
  "length [1, 2, 3, 4 :: byte] = 2 * 2 \<and> wav_representable (2 * 2) 48000 2 \<and>
   (\<exists>wav. createWavBuffer [1, 2, 3, 4] 48000 2 = Inr wav \<and>
      wav_header_declares wav [1, 2, 3, 4] 2 48000 2) \<and>
   length ([] :: byte list) = 0 * 2 \<and> \<not> wav_representable (0 * 2) 4294967296 1 \<and>
   createWavBuffer [] 4294967296 1 = Inl ERR_OUT_OF_RANGE"
proof -
  have h1: "length [1, 2, 3, 4 :: byte] = 2 * 2"
    by simp
  have h2: "wav_representable (2 * 2) 48000 2"
    by (simp add: wav_representable_def)
  have h3: "length ([] :: byte list) = 0 * 2"
    by simp
  have h4: "\<not> wav_representable (0 * 2) 4294967296 1"
    by (simp add: wav_representable_def)
  show ?thesis
    using h1 h2 h3 h4 createWavBuffer_header_roundtrip [OF h1, of 48000 2]
      createWavBuffer_header_roundtrip [OF h3, of 4294967296 1]
    by blast
qed

section \<open>Properties of the recorder\<close>

subsection \<open>What each operation touches\<close>

lemma map_filter_append:
  "List.map_filter f (xs @ ys) = List.map_filter f xs @ List.map_filter f ys"
  by (simp add: List.map_filter_def)

lemma keys_map_entry: "map fst (AList.map_entry k f xs) = map fst xs"
  by (induction xs) auto

lemma map_of_map_entry_at:
  "map_of (AList.map_entry k f xs) k' =
     (if k' = k then map_option f (map_of xs k) else map_of xs k')"
  by (induction xs) auto

lemma minBytes_eq: "minBytes = 19200"
  by (simp add: minBytes_def SAMPLE_RATE_def CHANNELS_def)

lemma assign_fields [simp]:
  "map_of (users (assign u f s)) k =
     (if k = u then map_option f (map_of (users s) u) else map_of (users s) k)"
  "map fst (users (assign u f s)) = map fst (users s)"
  "timers (assign u f s) = timers s"
  "nextHandle (assign u f s) = nextHandle s"
  "now (assign u f s) = now s"
  "destroyed (assign u f s) = destroyed s"
  "effects (assign u f s) = effects s"
  "guildId (assign u f s) = guildId s"
  "SILENCE_DURATION_MS (assign u f s) = SILENCE_DURATION_MS s"
  by (simp_all add: assign_def map_of_map_entry_at keys_map_entry)

lemma emit_fields [simp]:
  "users (emit es s) = users s"
  "timers (emit es s) = timers s"
  "nextHandle (emit es s) = nextHandle s"
  "now (emit es s) = now s"
  "destroyed (emit es s) = destroyed s"
  "effects (emit es s) = effects s @ es"
  "guildId (emit es s) = guildId s"
  "SILENCE_DURATION_MS (emit es s) = SILENCE_DURATION_MS s"
  by (simp_all add: emit_def)

lemma clearTimeout_fields [simp]:
  "users (clearTimeout h s) = users s"
  "timers (clearTimeout h s) = filter (\<lambda>t. fst t \<noteq> h) (timers s)"
  "nextHandle (clearTimeout h s) = nextHandle s"
  "now (clearTimeout h s) = now s"
  "destroyed (clearTimeout h s) = destroyed s"
  "effects (clearTimeout h s) = effects s"
  "guildId (clearTimeout h s) = guildId s"
  "SILENCE_DURATION_MS (clearTimeout h s) = SILENCE_DURATION_MS s"
  by (simp_all add: clearTimeout_def)

lemma flushAndSend_frame [simp]:
  "map fst (users (flushAndSend u s)) = map fst (users s)"
  "timers (flushAndSend u s) = timers s"
  "nextHandle (flushAndSend u s) = nextHandle s"
  "now (flushAndSend u s) = now s"
  "destroyed (flushAndSend u s) = destroyed s"
  "guildId (flushAndSend u s) = guildId s"
  "SILENCE_DURATION_MS (flushAndSend u s) = SILENCE_DURATION_MS s"
  by (simp_all add: flushAndSend_def Let_def split: option.splits)

lemma flushAndSend_users:
  "map_of (users (flushAndSend u s)) k =
     (if k = u then map_option (\<lambda>us. us\<lparr>audioChunks := []\<rparr>) (map_of (users s) u)
      else map_of (users s) k)"
  by (auto simp: flushAndSend_def Let_def split: option.splits)

lemma flushAndSend_empty: "buffer_of u s = [] \<Longrightarrow> flushAndSend u s = s"
  by (simp add: flushAndSend_def buffer_of_def split: option.splits)

lemma buffer_of_flushAndSend: "buffer_of u (flushAndSend u s) = []"
  by (simp add: buffer_of_def flushAndSend_users split: option.splits)

lemma flushAndSend_idem: "flushAndSend u (flushAndSend u s) = flushAndSend u s"
  by (rule flushAndSend_empty) (rule buffer_of_flushAndSend)

lemma flushAndSend_effects:
  assumes "map_of (users s) u = Some us" "audioChunks us \<noteq> []"
  shows "effects (flushAndSend u s) = effects s @
     Drained (now s) u (concat (audioChunks us)) #
     (if length (concat (audioChunks us)) < 19200
      then [ConsoleLog (Skipping u (length (concat (audioChunks us))))]
      else [ConsoleLog (Sending u),
            SendAudio \<lparr>arg_userId = u, arg_guildId = guildId s,
                       arg_pcmBuffer = concat (audioChunks us), arg_sampleRate = 48000,
                       arg_channels = 2\<rparr>] @
           (case createWavBuffer (concat (audioChunks us)) 48000 2 of
              Inl e \<Rightarrow> []
            | Inr wav \<Rightarrow> [HttpPost \<lparr>audio = wav, filename = (u, now s), form_userId = u,
                 form_guildId = guildId s, form_sampleRate = 48000, form_channels = 2,
                 timestamp = now s\<rparr>]))"
  using assms
  by (simp add: flushAndSend_def Let_def minBytes_eq sendAudioToBackend_def SAMPLE_RATE_def
      CHANNELS_def split: sum.splits)

lemma createWavBuffer_too_large:
  assumes "4294967295 < 36 + int (length pcm)"
  shows "createWavBuffer pcm R C = Inl ERR_OUT_OF_RANGE"
proof -
  have a: "Buffer_write ''RIFF'' 0 (Buffer_alloc (44 + length pcm)) =
      Inr (overwrite (Buffer_alloc (44 + length pcm)) 0 (map of_char ''RIFF''))"
    by (simp add: Buffer_write_def)
  have b: "writeUInt32LE (36 + int (length pcm)) 4 buf = Inl ERR_OUT_OF_RANGE" for buf
    using assms by (simp add: writeUInt32LE_def)
  have c: "and_then (Inl e) f = Inl e" for e f
    by (simp add: and_then_def)
  show ?thesis
    unfolding createWavBuffer_def Let_def foldl.simps
    by (simp only: a b c and_then_Inr)
qed

lemma createWavBuffer_stereo:
  "createWavBuffer pcm 48000 2 =
     (if length pcm \<le> 4294967259 then Inr (wav_header (int (length pcm)) 48000 2 @ pcm)
      else Inl ERR_OUT_OF_RANGE)"
proof (cases "length pcm \<le> 4294967259")
  case True
  then have "wav_representable (length pcm) 48000 2"
    by (simp add: wav_representable_def)
  then show ?thesis
    using True createWavBuffer_closed_form [of pcm 48000 2] by simp
next
  case False
  then have "4294967295 < 36 + int (length pcm)"
    by simp
  then show ?thesis
    using False createWavBuffer_too_large [of pcm 48000 2] by simp
qed

lemma resetSilenceTimer_frame [simp]:
  "map fst (users (resetSilenceTimer u s)) = map fst (users s)"
  "now (resetSilenceTimer u s) = now s"
  "destroyed (resetSilenceTimer u s) = destroyed s"
  "effects (resetSilenceTimer u s) = effects s"
  "guildId (resetSilenceTimer u s) = guildId s"
  "SILENCE_DURATION_MS (resetSilenceTimer u s) = SILENCE_DURATION_MS s"
  by (simp_all add: resetSilenceTimer_def setTimeout_def Let_def split: option.splits)

lemma resetSilenceTimer_users:
  "map_of (users (resetSilenceTimer u s)) k =
     (if k = u
      then map_option (\<lambda>us. us\<lparr>silenceTimer := Some (nextHandle s)\<rparr>) (map_of (users s) u)
      else map_of (users s) k)"
  by (auto simp: resetSilenceTimer_def setTimeout_def Let_def split: option.splits)

lemma resetSilenceTimer_timers:
  "timers (resetSilenceTimer u s) =
     (case map_of (users s) u of
        None \<Rightarrow> timers s
      | Some us \<Rightarrow>
          filter (\<lambda>t. Some (fst t) \<noteq> silenceTimer us) (timers s) @
          [(nextHandle s, now s + SILENCE_DURATION_MS s, u)])"
  by (auto simp: resetSilenceTimer_def setTimeout_def Let_def split: option.splits)

lemma resetSilenceTimer_nextHandle:
  "nextHandle (resetSilenceTimer u s) =
     (if map_of (users s) u = None then nextHandle s else Suc (nextHandle s))"
  by (auto simp: resetSilenceTimer_def setTimeout_def Let_def split: option.splits)

lemma buffer_of_resetSilenceTimer [simp]:
  "buffer_of k (resetSilenceTimer u s) = buffer_of k s"
  by (simp add: buffer_of_def resetSilenceTimer_users split: option.splits)

lemma flush_settled_frame [simp]:
  "users (flush_settled u ok s) = users s"
  "timers (flush_settled u ok s) = timers s"
  "nextHandle (flush_settled u ok s) = nextHandle s"
  "now (flush_settled u ok s) = now s"
  "destroyed (flush_settled u ok s) = destroyed s"
  "guildId (flush_settled u ok s) = guildId s"
  "SILENCE_DURATION_MS (flush_settled u ok s) = SILENCE_DURATION_MS s"
  by (simp_all add: flush_settled_def)

lemma silence_timeout_frame [simp]:
  "map fst (users (silence_timeout u s)) = map fst (users s)"
  "timers (silence_timeout u s) = timers s"
  "nextHandle (silence_timeout u s) = nextHandle s"
  "now (silence_timeout u s) = now s"
  "destroyed (silence_timeout u s) = destroyed s"
  "guildId (silence_timeout u s) = guildId s"
  "SILENCE_DURATION_MS (silence_timeout u s) = SILENCE_DURATION_MS s"
  by (simp_all add: silence_timeout_def)

lemma opusStream_close_frame [simp]:
  "map fst (users (opusStream_close u s)) = map fst (users s)"
  "timers (opusStream_close u s) = timers s"
  "nextHandle (opusStream_close u s) = nextHandle s"
  "now (opusStream_close u s) = now s"
  "destroyed (opusStream_close u s) = destroyed s"
  "guildId (opusStream_close u s) = guildId s"
  "SILENCE_DURATION_MS (opusStream_close u s) = SILENCE_DURATION_MS s"
  by (simp_all add: opusStream_close_def)

lemma handle_of_assign:
  "(\<And>us. silenceTimer (f us) = silenceTimer us) \<Longrightarrow> handle_of k (assign u f s) = handle_of k s"
  by (simp add: handle_of_def split: option.splits)

lemma handle_of_emit [simp]: "handle_of k (emit es s) = handle_of k s"
  by (simp add: handle_of_def)

lemma handle_of_clearTimeout [simp]: "handle_of k (clearTimeout h s) = handle_of k s"
  by (simp add: handle_of_def)

lemma handle_of_flushAndSend [simp]: "handle_of k (flushAndSend u s) = handle_of k s"
  by (simp add: handle_of_def flushAndSend_users split: option.splits)

lemma handle_of_silence_timeout [simp]: "handle_of k (silence_timeout u s) = handle_of k s"
  by (simp add: silence_timeout_def handle_of_assign)

lemma handle_of_opusStream_close [simp]: "handle_of k (opusStream_close u s) = handle_of k s"
  by (simp add: opusStream_close_def)

lemma handle_of_flush_settled [simp]: "handle_of k (flush_settled u ok s) = handle_of k s"
  by (simp add: handle_of_def)

lemma handle_of_now [simp]: "handle_of k (s\<lparr>now := t\<rparr>) = handle_of k s"
  by (simp add: handle_of_def)

lemma handle_of_destroyed [simp]: "handle_of k (s\<lparr>destroyed := b\<rparr>) = handle_of k s"
  by (simp add: handle_of_def)

lemma handle_of_resetSilenceTimer:
  "handle_of k (resetSilenceTimer u s) =
     (if k = u \<and> map_of (users s) u \<noteq> None then Some (nextHandle s) else handle_of k s)"
  by (auto simp: handle_of_def resetSilenceTimer_users split: option.splits)

subsection \<open>Every live timer is the stored one\<close>

lemma timers_trackedI:
  "distinct (map fst (timers s)) \<Longrightarrow>
   (\<And>t. t \<in> set (timers s) \<Longrightarrow> fst t < nextHandle s \<and> handle_of (snd (snd t)) s = Some (fst t)) \<Longrightarrow>
   timers_tracked s"
  by (simp add: timers_tracked_def list_all_iff)

lemma timers_trackedD:
  "timers_tracked s \<Longrightarrow> distinct (map fst (timers s))"
  "timers_tracked s \<Longrightarrow> t \<in> set (timers s) \<Longrightarrow> fst t < nextHandle s"
  "timers_tracked s \<Longrightarrow> t \<in> set (timers s) \<Longrightarrow> handle_of (snd (snd t)) s = Some (fst t)"
  by (auto simp: timers_tracked_def list_all_iff)

lemma timers_tracked_filter:
  assumes "timers_tracked s" "timers s' = filter P (timers s)"
    "nextHandle s' = nextHandle s" "\<And>k. handle_of k s' = handle_of k s"
  shows "timers_tracked s'"
  using assms by (auto simp: timers_tracked_def list_all_iff distinct_map_filter)

lemma timers_tracked_same:
  assumes "timers_tracked s" "timers s' = timers s"
    "nextHandle s' = nextHandle s" "\<And>k. handle_of k s' = handle_of k s"
  shows "timers_tracked s'"
  using assms by (auto simp: timers_tracked_def list_all_iff)

lemma timers_tracked_flushAndSend: "timers_tracked s \<Longrightarrow> timers_tracked (flushAndSend u s)"
  by (erule timers_tracked_same) simp_all

lemma timers_tracked_silence_timeout: "timers_tracked s \<Longrightarrow> timers_tracked (silence_timeout u s)"
  by (erule timers_tracked_same) simp_all

lemma timers_tracked_opusStream_close: "timers_tracked s \<Longrightarrow> timers_tracked (opusStream_close u s)"
  by (erule timers_tracked_same) simp_all

lemma timers_tracked_flush_settled: "timers_tracked s \<Longrightarrow> timers_tracked (flush_settled u ok s)"
  by (erule timers_tracked_same) simp_all

lemma timers_tracked_clearTimeout: "timers_tracked s \<Longrightarrow> timers_tracked (clearTimeout h s)"
  by (rule timers_tracked_filter [where P = "\<lambda>t. fst t \<noteq> h"]) simp_all

lemma timers_tracked_now: "timers_tracked s \<Longrightarrow> timers_tracked (s\<lparr>now := t\<rparr>)"
  by (erule timers_tracked_same) simp_all

lemma timers_tracked_emit: "timers_tracked s \<Longrightarrow> timers_tracked (emit es s)"
  by (erule timers_tracked_same) simp_all

lemma timers_tracked_assign:
  "(\<And>us. silenceTimer (f us) = silenceTimer us) \<Longrightarrow> timers_tracked s \<Longrightarrow>
   timers_tracked (assign u f s)"
  by (erule timers_tracked_same) (simp_all add: handle_of_assign)

lemma timers_tracked_resetSilenceTimer:
  assumes "timers_tracked s"
  shows "timers_tracked (resetSilenceTimer u s)"
proof (cases "map_of (users s) u")
  case None
  then show ?thesis using assms by (simp add: resetSilenceTimer_def)
next
  case (Some us)
  let ?s' = "resetSilenceTimer u s"
  have tm: "timers ?s' = filter (\<lambda>t. Some (fst t) \<noteq> silenceTimer us) (timers s) @
      [(nextHandle s, now s + SILENCE_DURATION_MS s, u)]"
    using Some by (simp add: resetSilenceTimer_timers)
  have nh: "nextHandle ?s' = Suc (nextHandle s)"
    using Some by (simp add: resetSilenceTimer_nextHandle)
  have hu: "handle_of u s = silenceTimer us"
    using Some by (simp add: handle_of_def)
  show ?thesis
  proof (rule timers_trackedI)
    show "distinct (map fst (timers ?s'))"
    proof -
      have "\<forall>t\<in>set (timers s). fst t \<noteq> nextHandle s"
        using timers_trackedD(2) [OF assms] by fastforce
      then show ?thesis
        using timers_trackedD(1) [OF assms] by (auto simp: tm distinct_map_filter)
    qed
  next
    fix t assume "t \<in> set (timers ?s')"
    then consider "t = (nextHandle s, now s + SILENCE_DURATION_MS s, u)"
      | "t \<in> set (timers s)" "Some (fst t) \<noteq> silenceTimer us"
      by (auto simp: tm)
    then show "fst t < nextHandle ?s' \<and> handle_of (snd (snd t)) ?s' = Some (fst t)"
    proof cases
      case 1
      then show ?thesis using Some by (simp add: nh handle_of_resetSilenceTimer)
    next
      case 2
      have "snd (snd t) \<noteq> u"
        using timers_trackedD(3) [OF assms 2(1)] 2(2) hu by auto
      then show ?thesis
        using timers_trackedD(2,3) [OF assms 2(1)] by (simp add: nh handle_of_resetSilenceTimer)
    qed
  qed
qed

lemma handle_of_users_update:
  "handle_of k (s\<lparr>users := AList.update u us (users s)\<rparr>) =
     (if k = u then silenceTimer us else handle_of k s)"
  by (simp add: handle_of_def AList.update_conv')

lemma timers_tracked_subscribe:
  assumes "timers_tracked s" "map_of (users s) u = None" "silenceTimer us = None"
  shows "timers_tracked (s\<lparr>users := AList.update u us (users s)\<rparr>)"
proof (rule timers_tracked_same [OF assms(1)])
  fix k
  show "handle_of k (s\<lparr>users := AList.update u us (users s)\<rparr>) = handle_of k s"
    using assms(2,3) by (simp add: handle_of_users_update) (simp add: handle_of_def)
qed simp_all

lemma timers_tracked_handleUserSpeaking:
  assumes "timers_tracked s"
  shows "timers_tracked (handleUserSpeaking u s)"
proof -
  have a: "timers_tracked (resetSilenceTimer u (assign u (\<lambda>us. us\<lparr>isSpeaking := True\<rparr>) s))"
    by (intro timers_tracked_resetSilenceTimer timers_tracked_assign assms) simp
  have b: "timers_tracked (resetSilenceTimer u
      (emit [Subscribe u] (emit [ConsoleLog (Subscribing u)] s)
        \<lparr>users := AList.update u \<lparr>audioChunks = [], isSpeaking = True, silenceTimer = None\<rparr>
           (users (emit [Subscribe u] (emit [ConsoleLog (Subscribing u)] s)))\<rparr>))"
    if "map_of (users s) u = None"
    by (intro timers_tracked_resetSilenceTimer timers_tracked_subscribe timers_tracked_emit assms)
      (simp_all add: that)
  show ?thesis
    using a b assms by (auto simp: handleUserSpeaking_def Let_def)
qed

lemma timers_tracked_decoder_data:
  assumes "timers_tracked s"
  shows "timers_tracked (decoder_data u c s)"
  unfolding decoder_data_def
  by (auto intro!: timers_tracked_resetSilenceTimer timers_tracked_assign assms)

lemma timers_tracked_fire:
  assumes "timers_tracked s"
  shows "timers_tracked (fire h s)"
  unfolding fire_def
  by (auto intro!: timers_tracked_silence_timeout timers_tracked_clearTimeout assms
      split: option.splits)

lemma timers_tracked_fire_all: "timers_tracked s \<Longrightarrow> timers_tracked (fire_all ts s)"
  by (induction ts s rule: fire_all.induct)
    (auto intro: timers_tracked_fire timers_tracked_now)

lemma timers_tracked_advance: "timers_tracked s \<Longrightarrow> timers_tracked (advance t s)"
  unfolding advance_def Let_def
  by (intro timers_tracked_now timers_tracked_fire_all)

text \<open>The teardown cancels every live timer.\<close>

lemma timers_destroy_user:
  "timers (destroy_user s u) = filter (\<lambda>t. Some (fst t) \<noteq> handle_of u s) (timers s)"
  by (auto simp: destroy_user_def handle_of_def Let_def split: option.splits)

lemma handle_of_destroy_user [simp]: "handle_of k (destroy_user s u) = handle_of k s"
  by (auto simp: destroy_user_def Let_def split: option.splits)

lemma timers_foldl_destroy_user:
  "timers (foldl destroy_user s ks) =
     filter (\<lambda>t. \<forall>k\<in>set ks. Some (fst t) \<noteq> handle_of k s) (timers s)"
proof (induction ks arbitrary: s)
  case Nil
  then show ?case by simp
next
  case (Cons k ks)
  show ?case
    by (simp add: Cons.IH timers_destroy_user)
qed

lemma handle_of_registered:
  "handle_of k s = Some h \<Longrightarrow> k \<in> set (map fst (users s))"
  by (auto simp: handle_of_def split: option.splits dest: map_of_SomeD intro: rev_image_eqI)

lemma timers_destroy:
  assumes "timers_tracked s"
  shows "timers (destroy s) = []"
proof -
  have "\<exists>k\<in>set (map fst (users s)). Some (fst t) = handle_of k s" if "t \<in> set (timers s)" for t
  proof (rule bexI [where x = "snd (snd t)"])
    show "Some (fst t) = handle_of (snd (snd t)) s"
      using timers_trackedD(3) [OF assms that] by simp
    then show "snd (snd t) \<in> set (map fst (users s))"
      using handle_of_registered [of "snd (snd t)" s "fst t"] by simp
  qed
  then show ?thesis
    by (auto simp: destroy_def Let_def timers_foldl_destroy_user filter_empty_conv)
qed

lemma timers_tracked_destroy:
  assumes "timers_tracked s"
  shows "timers_tracked (destroy s)"
  using timers_destroy [OF assms] by (simp add: timers_tracked_def)

lemma timers_tracked_step: "timers_tracked s \<Longrightarrow> timers_tracked (step s e)"
  by (cases e)
    (simp_all add: timers_tracked_handleUserSpeaking timers_tracked_decoder_data
      timers_tracked_opusStream_close timers_tracked_flush_settled timers_tracked_destroy
      timers_tracked_advance timers_tracked_emit decoder_error_def opusStream_error_def)

lemma timers_tracked_exec: "timers_tracked s \<Longrightarrow> timers_tracked (exec evs s)"
  unfolding exec_def by (induction evs arbitrary: s) (simp_all add: timers_tracked_step)

lemma timers_tracked_AudioRecorder: "timers_tracked (AudioRecorder g q)"
  by (simp add: timers_tracked_def AudioRecorder_def)

lemma length_le_1_if_same_key:
  assumes "distinct (map f xs)" "\<And>x y. x \<in> set xs \<Longrightarrow> y \<in> set xs \<Longrightarrow> f x = f y"
  shows "length xs \<le> 1"
proof (cases xs)
  case Nil
  then show ?thesis by simp
next
  case (Cons x ys)
  have "ys = []"
  proof (cases ys)
    case Nil
    then show ?thesis by simp
  next
    case (Cons y zs)
    then have "f x = f y"
      using assms(2) [of x y] \<open>xs = x # ys\<close> by simp
    then show ?thesis
      using assms(1) \<open>xs = x # ys\<close> Cons by simp
  qed
  then show ?thesis using Cons by simp
qed

lemma at_most_one_timer:
  assumes "timers_tracked s"
  shows "length (timers_of u s) \<le> 1"
proof (rule length_le_1_if_same_key [where f = fst])
  show "distinct (map fst (timers_of u s))"
    using timers_trackedD(1) [OF assms] by (simp add: timers_of_def distinct_map_filter)
next
  fix t t' assume "t \<in> set (timers_of u s)" "t' \<in> set (timers_of u s)"
  then show "fst t = fst t'"
    using timers_trackedD(3) [OF assms, of t] timers_trackedD(3) [OF assms, of t']
    by (auto simp: timers_of_def)
qed

subsection \<open>One subscription and one session for each speaker\<close>

lemma subscriptions_emit:
  "subscriptions (emit es s) = subscriptions s @ List.map_filter subscribed_of es"
  by (simp add: subscriptions_def map_filter_append)

lemma subscriptions_field_updates [simp]:
  "subscriptions (assign u f s) = subscriptions s"
  "subscriptions (clearTimeout h s) = subscriptions s"
  "subscriptions (s\<lparr>now := t\<rparr>) = subscriptions s"
  "subscriptions (s\<lparr>destroyed := b\<rparr>) = subscriptions s"
  "subscriptions (s\<lparr>users := xs\<rparr>) = subscriptions s"
  by (simp_all add: subscriptions_def)

lemma subscriptions_flushAndSend [simp]: "subscriptions (flushAndSend u s) = subscriptions s"
  by (simp add: flushAndSend_def Let_def subscriptions_emit List.map_filter_def
      split: option.splits sum.splits)

lemma subscriptions_resetSilenceTimer [simp]:
  "subscriptions (resetSilenceTimer u s) = subscriptions s"
  by (simp add: subscriptions_def)

lemma subscriptions_flush_settled [simp]: "subscriptions (flush_settled u ok s) = subscriptions s"
  by (simp add: flush_settled_def subscriptions_emit List.map_filter_def)

lemma subscriptions_silence_timeout [simp]: "subscriptions (silence_timeout u s) = subscriptions s"
  by (simp add: silence_timeout_def)

lemma subscriptions_opusStream_close [simp]:
  "subscriptions (opusStream_close u s) = subscriptions s"
  by (simp add: opusStream_close_def subscriptions_emit List.map_filter_def)

lemma subscriptions_decoder_data [simp]: "subscriptions (decoder_data u c s) = subscriptions s"
  by (simp add: decoder_data_def)

lemma stream_error_frame [simp]:
  "subscriptions (decoder_error u s) = subscriptions s"
  "subscriptions (opusStream_error u s) = subscriptions s"
  "users (decoder_error u s) = users s"
  "users (opusStream_error u s) = users s"
  "destroyed (decoder_error u s) = destroyed s"
  "destroyed (opusStream_error u s) = destroyed s"
  "guildId (decoder_error u s) = guildId s"
  "guildId (opusStream_error u s) = guildId s"
  "SILENCE_DURATION_MS (decoder_error u s) = SILENCE_DURATION_MS s"
  "SILENCE_DURATION_MS (opusStream_error u s) = SILENCE_DURATION_MS s"
  by (simp_all add: decoder_error_def opusStream_error_def subscriptions_emit
      List.map_filter_def)

lemma subscriptions_fire [simp]: "subscriptions (fire h s) = subscriptions s"
  by (simp add: fire_def split: option.splits)

lemma subscriptions_fire_all [simp]: "subscriptions (fire_all ts s) = subscriptions s"
  by (induction ts s rule: fire_all.induct) simp_all

lemma subscriptions_advance [simp]: "subscriptions (advance t s) = subscriptions s"
  by (simp add: advance_def Let_def)

lemma subscriptions_destroy_user [simp]: "subscriptions (destroy_user s u) = subscriptions s"
  by (simp add: destroy_user_def Let_def subscriptions_emit List.map_filter_def
      split: option.splits)

lemma subscriptions_foldl_destroy_user [simp]:
  "subscriptions (foldl destroy_user s ks) = subscriptions s"
  by (induction ks arbitrary: s) simp_all

lemma subscriptions_destroy [simp]: "subscriptions (destroy s) = subscriptions s"
  by (simp add: destroy_def Let_def)

lemma subscriptions_handleUserSpeaking:
  "subscriptions (handleUserSpeaking u s) =
     (if destroyed s \<or> map_of (users s) u \<noteq> None then subscriptions s
      else subscriptions s @ [u])"
  by (simp add: handleUserSpeaking_def Let_def subscriptions_emit List.map_filter_def)

lemma keys_handleUserSpeaking:
  "map fst (users (handleUserSpeaking u s)) =
     (if destroyed s \<or> map_of (users s) u \<noteq> None then map fst (users s)
      else map fst (users s) @ [u])"
  by (auto simp: handleUserSpeaking_def Let_def AList.update_keys map_of_eq_None_iff)

lemma destroyed_handleUserSpeaking [simp]:
  "destroyed (handleUserSpeaking u s) = destroyed s"
  by (simp add: handleUserSpeaking_def Let_def)

lemma decoder_data_frame [simp]:
  "map fst (users (decoder_data u c s)) = map fst (users s)"
  "destroyed (decoder_data u c s) = destroyed s"
  "now (decoder_data u c s) = now s"
  "guildId (decoder_data u c s) = guildId s"
  "SILENCE_DURATION_MS (decoder_data u c s) = SILENCE_DURATION_MS s"
  by (simp_all add: decoder_data_def)

lemma fire_frame [simp]:
  "map fst (users (fire h s)) = map fst (users s)"
  "destroyed (fire h s) = destroyed s"
  "now (fire h s) = now s"
  "nextHandle (fire h s) = nextHandle s"
  "guildId (fire h s) = guildId s"
  "SILENCE_DURATION_MS (fire h s) = SILENCE_DURATION_MS s"
  by (simp_all add: fire_def split: option.splits)

lemma fire_all_frame [simp]:
  "map fst (users (fire_all ts s)) = map fst (users s)"
  "destroyed (fire_all ts s) = destroyed s"
  "nextHandle (fire_all ts s) = nextHandle s"
  "guildId (fire_all ts s) = guildId s"
  "SILENCE_DURATION_MS (fire_all ts s) = SILENCE_DURATION_MS s"
  by (induction ts s rule: fire_all.induct) simp_all

lemma advance_frame [simp]:
  "map fst (users (advance t s)) = map fst (users s)"
  "destroyed (advance t s) = destroyed s"
  "nextHandle (advance t s) = nextHandle s"
  "guildId (advance t s) = guildId s"
  "SILENCE_DURATION_MS (advance t s) = SILENCE_DURATION_MS s"
  by (simp_all add: advance_def Let_def)

lemma destroy_user_frame [simp]:
  "map fst (users (destroy_user s u)) = map fst (users s)"
  "destroyed (destroy_user s u) = destroyed s"
  "now (destroy_user s u) = now s"
  "nextHandle (destroy_user s u) = nextHandle s"
  "guildId (destroy_user s u) = guildId s"
  "SILENCE_DURATION_MS (destroy_user s u) = SILENCE_DURATION_MS s"
  by (simp_all add: destroy_user_def Let_def split: option.splits)

lemma foldl_destroy_user_frame [simp]:
  "map fst (users (foldl destroy_user s ks)) = map fst (users s)"
  "destroyed (foldl destroy_user s ks) = destroyed s"
  "now (foldl destroy_user s ks) = now s"
  "nextHandle (foldl destroy_user s ks) = nextHandle s"
  "guildId (foldl destroy_user s ks) = guildId s"
  "SILENCE_DURATION_MS (foldl destroy_user s ks) = SILENCE_DURATION_MS s"
  by (induction ks arbitrary: s) simp_all

lemma destroy_fields [simp]:
  "users (destroy s) = []"
  "destroyed (destroy s)"
  "now (destroy s) = now s"
  "nextHandle (destroy s) = nextHandle s"
  "guildId (destroy s) = guildId s"
  "SILENCE_DURATION_MS (destroy s) = SILENCE_DURATION_MS s"
  by (simp_all add: destroy_def Let_def)

lemma handleUserSpeaking_frame [simp]:
  "now (handleUserSpeaking u s) = now s"
  "guildId (handleUserSpeaking u s) = guildId s"
  "SILENCE_DURATION_MS (handleUserSpeaking u s) = SILENCE_DURATION_MS s"
  by (simp_all add: handleUserSpeaking_def Let_def)

lemma keys_Nil_iff: "map fst xs = [] \<longleftrightarrow> xs = []"
  by simp

lemma registry_consistent_keep:
  assumes "registry_consistent s" "subscriptions s' = subscriptions s"
    "map fst (users s') = map fst (users s)" "destroyed s' = destroyed s"
  shows "registry_consistent s'"
  using assms by (auto simp: registry_consistent_def split: if_splits)

lemma registry_consistent_handleUserSpeaking:
  assumes "registry_consistent s"
  shows "registry_consistent (handleUserSpeaking u s)"
proof (cases "destroyed s \<or> map_of (users s) u \<noteq> None")
  case True
  then show ?thesis
    by (intro registry_consistent_keep [OF assms])
      (simp_all add: subscriptions_handleUserSpeaking keys_handleUserSpeaking)
next
  case False
  then have "u \<notin> set (map fst (users s))"
    by (simp add: map_of_eq_None_iff)
  moreover have "map fst (users s) = subscriptions s" "distinct (subscriptions s)"
    using assms False by (simp_all add: registry_consistent_def)
  ultimately have "u \<notin> set (subscriptions s)"
    by simp
  then show ?thesis
    using assms False
    by (simp add: registry_consistent_def subscriptions_handleUserSpeaking
        keys_handleUserSpeaking)
qed

lemma registry_consistent_step: "registry_consistent s \<Longrightarrow> registry_consistent (step s e)"
proof (cases e)
  case (SpeakingStart u)
  assume "registry_consistent s"
  then show ?thesis using SpeakingStart by (simp add: registry_consistent_handleUserSpeaking)
next
  case Destroy
  assume "registry_consistent s"
  then show ?thesis using Destroy by (simp add: registry_consistent_def)
qed (auto elim!: registry_consistent_keep)

lemma registry_consistent_exec: "registry_consistent s \<Longrightarrow> registry_consistent (exec evs s)"
  unfolding exec_def by (induction evs arbitrary: s) (simp_all add: registry_consistent_step)

lemma registry_consistent_AudioRecorder: "registry_consistent (AudioRecorder g q)"
  by (simp add: registry_consistent_def AudioRecorder_def subscriptions_def List.map_filter_def)

lemma step_frame [simp]:
  "guildId (step s e) = guildId s"
  "SILENCE_DURATION_MS (step s e) = SILENCE_DURATION_MS s"
  by (cases e; simp)+

lemma exec_frame [simp]:
  "guildId (exec evs s) = guildId s"
  "SILENCE_DURATION_MS (exec evs s) = SILENCE_DURATION_MS s"
  unfolding exec_def by (induction evs arbitrary: s) simp_all

subsection \<open>Uploads and drains\<close>

lemma flushes_flushAndSend:
  "flushes (flushAndSend u s) =
     flushes s @ (if buffer_of u s = [] then [] else [(now s, u, concat (buffer_of u s))])"
  by (simp add: flushAndSend_def buffer_of_def flushes_def Let_def map_filter_append
      List.map_filter_def split: option.splits sum.splits)

lemma upload_calls_flushAndSend:
  "upload_calls (flushAndSend u s) =
     upload_calls s @
     (if buffer_of u s = [] \<or> length (concat (buffer_of u s)) < 19200 then []
      else [\<lparr>arg_userId = u, arg_guildId = guildId s, arg_pcmBuffer = concat (buffer_of u s),
             arg_sampleRate = 48000, arg_channels = 2\<rparr>])"
  by (simp add: flushAndSend_def buffer_of_def upload_calls_def Let_def map_filter_append
      List.map_filter_def minBytes_eq SAMPLE_RATE_def CHANNELS_def
      split: option.splits sum.splits)

lemma flush_settled_observations [simp]:
  "upload_calls (flush_settled u ok s) = upload_calls s"
  "posts (flush_settled u ok s) = posts s"
  "flushes (flush_settled u ok s) = flushes s"
  "buffer_of v (flush_settled u ok s) = buffer_of v s"
  by (simp_all add: flush_settled_def upload_calls_def posts_def flushes_def buffer_of_def
      map_filter_append List.map_filter_def)

text \<open>
  Every operation only adds to the effects, and what it adds is balanced: an upload call
  comes with the drain it belongs to.
\<close>

lemma balanced_Nil [simp]: "balanced []"
  by (simp add: balanced_def List.map_filter_def)

lemma balanced_append: "balanced es \<Longrightarrow> balanced es' \<Longrightarrow> balanced (es @ es')"
  by (simp add: balanced_def map_filter_append)

lemma extends_refl [simp]: "extends s s"
  by (simp add: extends_def)

lemma extends_trans: "extends s s' \<Longrightarrow> extends s' s'' \<Longrightarrow> extends s s''"
  by (auto simp: extends_def balanced_append)

lemma extends_same: "effects s' = effects s \<Longrightarrow> extends s s'"
  by (simp add: extends_def)

lemma extends_emit: "balanced es \<Longrightarrow> extends s (emit es s)"
  by (simp add: extends_def)

lemma extends_flushAndSend: "extends s (flushAndSend u s)"
  unfolding extends_def
  by (simp add: flushAndSend_def Let_def balanced_def List.map_filter_def minBytes_eq
      split: option.splits sum.splits)

lemma extends_resetSilenceTimer: "extends s (resetSilenceTimer u s)"
  by (rule extends_same) simp

lemma extends_flush_settled: "extends s (flush_settled u ok s)"
  by (simp add: flush_settled_def extends_emit balanced_def List.map_filter_def)

lemma extends_handleUserSpeaking: "extends s (handleUserSpeaking u s)"
  by (simp add: extends_def handleUserSpeaking_def Let_def balanced_def List.map_filter_def)

lemma extends_decoder_data: "extends s (decoder_data u c s)"
  by (simp add: extends_def decoder_data_def)

lemma extends_stream_errors:
  "extends s (decoder_error u s)" "extends s (opusStream_error u s)"
  by (simp_all add: decoder_error_def opusStream_error_def extends_emit balanced_def
      List.map_filter_def)

lemma extends_opusStream_close: "extends s (opusStream_close u s)"
  unfolding opusStream_close_def
  by (rule extends_trans [OF extends_emit extends_flushAndSend])
    (simp add: balanced_def List.map_filter_def)

lemma extends_silence_timeout: "extends s (silence_timeout u s)"
  unfolding silence_timeout_def
  by (rule extends_trans [OF extends_same extends_flushAndSend]) simp

lemma extends_fire: "extends s (fire h s)"
  unfolding fire_def
  by (auto split: option.splits
      intro!: extends_trans [OF extends_same extends_silence_timeout])

lemma extends_fire_all: "extends s (fire_all ts s)"
proof (induction ts s rule: fire_all.induct)
  case (1 s)
  then show ?case by simp
next
  case (2 h due u ts s)
  have "extends s (fire h (s\<lparr>now := max (now s) due\<rparr>))"
    by (rule extends_trans [OF extends_same extends_fire]) simp
  then show ?case
    using 2 by (auto intro: extends_trans)
qed

lemma extends_advance: "extends s (advance t s)"
  unfolding advance_def Let_def
  by (rule extends_trans [OF extends_fire_all extends_same]) simp

lemma extends_destroy_user: "extends s (destroy_user s u)"
proof (cases "map_of (users s) u")
  case None
  then show ?thesis by (simp add: destroy_user_def)
next
  case (Some us)
  let ?s1 = "case silenceTimer us of None \<Rightarrow> s | Some h \<Rightarrow> clearTimeout h s"
  have 1: "extends s ?s1"
    by (rule extends_same) (simp split: option.splits)
  have 2: "extends ?s1 (flushAndSend u ?s1)"
    by (rule extends_flushAndSend)
  have 3: "extends (flushAndSend u ?s1)
      (emit [ConsoleLog (CleanedUp u)]
        (emit [DestroyStream (Decoder u), DestroyStream (OpusStream u)] (flushAndSend u ?s1)))"
    by (intro extends_trans [OF extends_emit extends_emit])
      (simp_all add: balanced_def List.map_filter_def)
  show ?thesis
    using extends_trans [OF extends_trans [OF 1 2] 3] Some
    by (simp add: destroy_user_def Let_def)
qed

lemma extends_foldl_destroy_user: "extends s (foldl destroy_user s ks)"
proof (induction ks arbitrary: s)
  case Nil
  then show ?case by simp
next
  case (Cons k ks)
  show ?case
    using extends_trans [OF extends_destroy_user Cons.IH] by simp
qed

lemma extends_destroy: "extends s (destroy s)"
  unfolding destroy_def Let_def
  by (rule extends_trans [OF extends_same
        extends_trans [OF extends_foldl_destroy_user extends_same]]) simp_all

lemma extends_step: "extends s (step s e)"
  by (cases e)
    (simp_all add: extends_handleUserSpeaking extends_decoder_data extends_stream_errors
      extends_opusStream_close extends_flush_settled extends_destroy extends_advance)

lemma extends_exec: "extends s (exec evs s)"
  unfolding exec_def
proof (induction evs arbitrary: s)
  case Nil
  then show ?case by simp
next
  case (Cons e evs)
  show ?case
    using extends_trans [OF extends_step Cons.IH] by simp
qed

lemma uploads_are_drains_above_floor:
  "map (\<lambda>a. (arg_userId a, arg_pcmBuffer a)) (upload_calls (exec evs (AudioRecorder g q))) =
   map snd (filter (\<lambda>x. 19200 \<le> length (snd (snd x))) (flushes (exec evs (AudioRecorder g q))))"
proof -
  obtain es where "effects (exec evs (AudioRecorder g q)) = effects (AudioRecorder g q) @ es"
    and b: "balanced es"
    using extends_exec [of "AudioRecorder g q" evs] by (auto simp: extends_def)
  then have e: "effects (exec evs (AudioRecorder g q)) = es"
    by (simp add: AudioRecorder_def)
  have "map (\<lambda>a. (arg_userId a, arg_pcmBuffer a)) (List.map_filter sent_of es) =
      List.map_filter upload_pair_of es" for es
  proof (induction es)
    case Nil
    then show ?case by (simp add: List.map_filter_def)
  next
    case (Cons x xs)
    then show ?case
      by (cases x) (simp_all add: List.map_filter_def)
  qed
  moreover have "map snd (filter (\<lambda>x. 19200 \<le> length (snd (snd x)))
      (List.map_filter drained_of es)) = List.map_filter big_drain_of es" for es
  proof (induction es)
    case Nil
    then show ?case by (simp add: List.map_filter_def)
  next
    case (Cons x xs)
    then show ?case
      by (cases x) (simp_all add: List.map_filter_def minBytes_eq)
  qed
  ultimately show ?thesis
    using b by (simp add: upload_calls_def flushes_def e balanced_def)
qed


subsection \<open>Running lists of events\<close>

lemma exec_append: "exec (evs @ evs') s = exec evs' (exec evs s)"
  by (simp add: exec_def)

lemma exec_Cons: "exec (e # evs) s = exec evs (step s e)"
  by (simp add: exec_def)

lemma exec_Nil: "exec [] s = s"
  by (simp add: exec_def)



subsection \<open>What an operation does to buffers, uploads and drains\<close>

lemma upload_calls_emit:
  "upload_calls (emit es s) = upload_calls s @ List.map_filter sent_of es"
  by (simp add: upload_calls_def map_filter_append)

lemma flushes_emit: "flushes (emit es s) = flushes s @ List.map_filter drained_of es"
  by (simp add: flushes_def map_filter_append)

lemma observations_field_updates [simp]:
  "upload_calls (assign u f s) = upload_calls s"
  "upload_calls (clearTimeout h s) = upload_calls s"
  "upload_calls (resetSilenceTimer u s) = upload_calls s"
  "upload_calls (s\<lparr>now := t\<rparr>) = upload_calls s"
  "upload_calls (s\<lparr>destroyed := b\<rparr>) = upload_calls s"
  "upload_calls (s\<lparr>users := xs\<rparr>) = upload_calls s"
  "flushes (assign u f s) = flushes s"
  "flushes (clearTimeout h s) = flushes s"
  "flushes (resetSilenceTimer u s) = flushes s"
  "flushes (s\<lparr>now := t\<rparr>) = flushes s"
  "flushes (s\<lparr>destroyed := b\<rparr>) = flushes s"
  "flushes (s\<lparr>users := xs\<rparr>) = flushes s"
  by (simp_all add: upload_calls_def flushes_def)

lemma buffer_of_field_updates [simp]:
  "buffer_of k (clearTimeout h s) = buffer_of k s"
  "buffer_of k (emit es s) = buffer_of k s"
  "buffer_of k (s\<lparr>now := t\<rparr>) = buffer_of k s"
  "buffer_of k (s\<lparr>destroyed := b\<rparr>) = buffer_of k s"
  by (simp_all add: buffer_of_def)

lemma buffer_of_assign:
  "buffer_of k (assign u f s) =
     (if k = u then (case map_of (users s) u of None \<Rightarrow> [] | Some us \<Rightarrow> audioChunks (f us))
      else buffer_of k s)"
  by (simp add: buffer_of_def split: option.splits)

lemma buffer_of_assign_other [simp]:
  "(\<And>us. audioChunks (f us) = audioChunks us) \<Longrightarrow> buffer_of k (assign u f s) = buffer_of k s"
  by (simp add: buffer_of_def split: option.splits)

lemma buffer_of_flushAndSend_at:
  "buffer_of k (flushAndSend u s) = (if k = u then [] else buffer_of k s)"
  by (simp add: buffer_of_def flushAndSend_users split: option.splits)

lemma silence_timeout_observations:
  "buffer_of k (silence_timeout u s) = (if k = u then [] else buffer_of k s)"
  "upload_calls (silence_timeout u s) =
     upload_calls s @
     (if buffer_of u s = [] \<or> length (concat (buffer_of u s)) < 19200 then []
      else [\<lparr>arg_userId = u, arg_guildId = guildId s, arg_pcmBuffer = concat (buffer_of u s),
             arg_sampleRate = 48000, arg_channels = 2\<rparr>])"
  "flushes (silence_timeout u s) =
     flushes s @ (if buffer_of u s = [] then [] else [(now s, u, concat (buffer_of u s))])"
  by (simp_all add: silence_timeout_def buffer_of_flushAndSend_at upload_calls_flushAndSend
      flushes_flushAndSend)

lemma opusStream_close_observations:
  "buffer_of k (opusStream_close u s) = (if k = u then [] else buffer_of k s)"
  "upload_calls (opusStream_close u s) =
     upload_calls s @
     (if buffer_of u s = [] \<or> length (concat (buffer_of u s)) < 19200 then []
      else [\<lparr>arg_userId = u, arg_guildId = guildId s, arg_pcmBuffer = concat (buffer_of u s),
             arg_sampleRate = 48000, arg_channels = 2\<rparr>])"
  "flushes (opusStream_close u s) =
     flushes s @ (if buffer_of u s = [] then [] else [(now s, u, concat (buffer_of u s))])"
  by (simp_all add: opusStream_close_def buffer_of_flushAndSend_at upload_calls_flushAndSend
      flushes_flushAndSend upload_calls_emit flushes_emit List.map_filter_def)



lemma timer_cleared_observations [simp]:
  "buffer_of k (case x of None \<Rightarrow> s | Some h \<Rightarrow> clearTimeout h s) = buffer_of k s"
  "upload_calls (case x of None \<Rightarrow> s | Some h \<Rightarrow> clearTimeout h s) = upload_calls s"
  "flushes (case x of None \<Rightarrow> s | Some h \<Rightarrow> clearTimeout h s) = flushes s"
  "guildId (case x of None \<Rightarrow> s | Some h \<Rightarrow> clearTimeout h s) = guildId s"
  "now (case x of None \<Rightarrow> s | Some h \<Rightarrow> clearTimeout h s) = now s"
  by (simp_all split: option.splits)






subsection \<open>Evaluating the recorder on concrete events\<close>

lemma AudioRecorder_fields [simp]:
  "guildId (AudioRecorder g q) = g"
  "SILENCE_DURATION_MS (AudioRecorder g q) = q"
  "users (AudioRecorder g q) = []"
  "timers (AudioRecorder g q) = []"
  "effects (AudioRecorder g q) = []"
  "now (AudioRecorder g q) = 0"
  "nextHandle (AudioRecorder g q) = 0"
  "\<not> destroyed (AudioRecorder g q)"
  by (simp_all add: AudioRecorder_def)

lemmas recorder_eval = exec_def handleUserSpeaking_def resetSilenceTimer_def setTimeout_def
  assign_def emit_def clearTimeout_def decoder_data_def subscribed_def AudioRecorder_def Let_def
  flushAndSend_def advance_def fire_def silence_timeout_def opusStream_close_def destroy_def
  destroy_user_def flush_settled_def minBytes_def SAMPLE_RATE_def CHANNELS_def

lemma one_chunk_state:
  "exec [SpeakingStart ''u'', DecoderData ''u'' c] (AudioRecorder ''g'' 1000) =
     \<lparr>guildId = ''g'',
      users = [(''u'', \<lparr>audioChunks = [c], isSpeaking = True, silenceTimer = Some 1\<rparr>)],
      destroyed = False, SILENCE_DURATION_MS = 1000, now = 0, timers = [(1, 1000, ''u'')],
      nextHandle = 2, effects = [ConsoleLog (Subscribing ''u''), Subscribe ''u'']\<rparr>"
  by (simp add: recorder_eval)

subsection \<open>The flush\<close>

text \<open>
  C3: a flush that drains less than 19200 bytes (100 ms at 48000 Hz, two channels, two
  bytes a sample) calls the upload client not at all and logs no error; a flush that
  drains 19200 bytes or more calls it exactly once, with the drained buffer, and the
  client posts exactly one form carrying the encoded container (the encoder can only
  refuse a buffer beyond the 32-bit size field, and then nothing is posted).
\<close>

theorem flushAndSend_minimum_duration_floor:
  assumes "map_of (users s) u = Some us" and "audioChunks us \<noteq> []"
  shows "upload_calls (flushAndSend u s) =
           upload_calls s @
           (if length (concat (audioChunks us)) < 19200 then []
            else [\<lparr>arg_userId = u, arg_guildId = guildId s,
                   arg_pcmBuffer = concat (audioChunks us), arg_sampleRate = 48000,
                   arg_channels = 2\<rparr>]) \<and>
         posts (flushAndSend u s) =
           posts s @
           (if length (concat (audioChunks us)) < 19200 then []
            else if length (concat (audioChunks us)) \<le> 4294967259
            then [\<lparr>audio = wav_header (int (length (concat (audioChunks us)))) 48000 2 @
                            concat (audioChunks us),
                   filename = (u, now s), form_userId = u, form_guildId = guildId s,
                   form_sampleRate = 48000, form_channels = 2, timestamp = now s\<rparr>]
            else []) \<and>
         errors (flushAndSend u s) = errors s"
  using assms
  by (simp add: flushAndSend_effects upload_calls_def posts_def errors_def map_filter_append
      createWavBuffer_stereo List.map_filter_def)

theorem flushAndSend_minimum_duration_floor_witness:
  "upload_calls (flushAndSend ''u''
     (exec [SpeakingStart ''u'', DecoderData ''u'' [1, 2]] (AudioRecorder ''g'' 1000))) = [] \<and>
   upload_calls (flushAndSend ''u''
     (exec [SpeakingStart ''u'', DecoderData ''u'' (replicate 19200 0)]
        (AudioRecorder ''g'' 1000))) =
     [\<lparr>arg_userId = ''u'', arg_guildId = ''g'', arg_pcmBuffer = replicate 19200 0,
       arg_sampleRate = 48000, arg_channels = 2\<rparr>]"
proof -
  let ?s = "\<lambda>c. exec [SpeakingStart ''u'', DecoderData ''u'' c] (AudioRecorder ''g'' 1000)"
  let ?us = "\<lambda>c. \<lparr>audioChunks = [c], isSpeaking = True, silenceTimer = Some 1\<rparr>"
  have h1: "map_of (users (?s c)) ''u'' = Some (?us c)" for c
    by (simp add: one_chunk_state)
  have h2: "audioChunks (?us c) \<noteq> []" for c
    by simp
  have e: "upload_calls (?s c) = []" "guildId (?s c) = ''g''" for c
    by (simp_all add: one_chunk_state upload_calls_def List.map_filter_def)
  show ?thesis
    using flushAndSend_minimum_duration_floor [OF h1 h2, of "[1, 2]"]
      flushAndSend_minimum_duration_floor [OF h1 h2, of "replicate 19200 0"]
    by (simp add: e)
qed

text \<open>
  C4: a flush of an empty buffer changes nothing. A flush leaves the buffer empty, so a
  second flush right after it is the state of the first: when the silence timeout and the
  close of the stream both flush, in either order, the second one adds no drain, no call
  of the upload client and no post (the close handler adds its console line only).
\<close>

theorem flush_at_most_once:
  "(buffer_of u s = [] \<longrightarrow> flushAndSend u s = s) \<and>
   flushAndSend u (flushAndSend u s) = flushAndSend u s \<and>
   effects (opusStream_close u (silence_timeout u s)) =
     effects (silence_timeout u s) @ [ConsoleLog (StreamClosed u)] \<and>
   effects (silence_timeout u (opusStream_close u s)) = effects (opusStream_close u s)"
proof -
  have a: "buffer_of u (emit es (flushAndSend u (assign u f s))) = []" for es f
    using buffer_of_flushAndSend [of u "assign u f s"] by (simp add: buffer_of_def)
  have b: "buffer_of u (assign u (\<lambda>us. us\<lparr>isSpeaking := False\<rparr>) (flushAndSend u s')) = []"
    for s'
    using buffer_of_flushAndSend [of u s']
    by (simp add: buffer_of_def split: option.splits)
  show ?thesis
    by (simp add: flushAndSend_empty flushAndSend_idem
        opusStream_close_def silence_timeout_def flushAndSend_empty [OF a]
        flushAndSend_empty [OF b])
qed

theorem flush_at_most_once_witness:
  "buffer_of ''u'' (exec [SpeakingStart ''u''] (AudioRecorder ''g'' 1000)) = [] \<and>
   flushAndSend ''u'' (exec [SpeakingStart ''u''] (AudioRecorder ''g'' 1000)) =
     exec [SpeakingStart ''u''] (AudioRecorder ''g'' 1000)"
proof -
  have h: "buffer_of ''u'' (exec [SpeakingStart ''u''] (AudioRecorder ''g'' 1000)) = []"
    by (simp add: recorder_eval buffer_of_def)
  show ?thesis
    using h flush_at_most_once [of "''u''" "exec [SpeakingStart ''u''] (AudioRecorder ''g'' 1000)"]
    by blast
qed



text \<open>
  C10: after the part of the flush that runs at once, the buffer of a tracked speaker is
  empty, whatever the floor and the upload decide. The settling of the upload, failed or
  not, touches neither the entries nor the buffer and makes no further upload call and
  no further post: the audio is not restored and not sent again. The next chunk starts a
  buffer that holds that chunk alone, and the next flush uploads that chunk alone. Over
  every run of a recorder the upload calls are, one for one and in order, the drained
  buffers of at least 19200 bytes, so no drained buffer is ever uploaded a second time.
\<close>

theorem flush_drains_before_processing:
  assumes "map_of (users s) u = Some us"
  shows "map_of (users (flushAndSend u s)) u = Some (us\<lparr>audioChunks := []\<rparr>) \<and>
         buffer_of u (flush_settled u ok (flushAndSend u s)) = [] \<and>
         (\<not> destroyed s \<longrightarrow>
            buffer_of u (decoder_data u c (flush_settled u ok (flushAndSend u s))) = [c]) \<and>
         users (flush_settled u ok (flushAndSend u s)) = users (flushAndSend u s) \<and>
         upload_calls (flush_settled u ok (flushAndSend u s)) =
           upload_calls (flushAndSend u s) \<and>
         posts (flush_settled u ok (flushAndSend u s)) = posts (flushAndSend u s) \<and>
         (\<not> destroyed s \<longrightarrow>
            upload_calls (flushAndSend u
              (decoder_data u c (flush_settled u ok (flushAndSend u s)))) =
            upload_calls (flushAndSend u s) @
            (if length c < 19200 then []
             else [\<lparr>arg_userId = u, arg_guildId = guildId s, arg_pcmBuffer = c,
                    arg_sampleRate = 48000, arg_channels = 2\<rparr>])) \<and>
         map (\<lambda>a. (arg_userId a, arg_pcmBuffer a))
           (upload_calls (exec evs (AudioRecorder g q))) =
         map snd (filter (\<lambda>x. 19200 \<le> length (snd (snd x)))
           (flushes (exec evs (AudioRecorder g q))))"
proof -
  let ?s1 = "flush_settled u ok (flushAndSend u s)"
  have b: "\<not> destroyed s \<Longrightarrow> buffer_of u (decoder_data u c ?s1) = [c]"
    using assms
    by (simp add: flushAndSend_users buffer_of_def decoder_data_def resetSilenceTimer_users)
  have e: "upload_calls (decoder_data u c ?s1) = upload_calls ?s1"
    by (simp add: upload_calls_def decoder_data_def)
  have "\<not> destroyed s \<Longrightarrow> upload_calls (flushAndSend u (decoder_data u c ?s1)) =
      upload_calls (flushAndSend u s) @
      (if length c < 19200 then []
       else [\<lparr>arg_userId = u, arg_guildId = guildId s, arg_pcmBuffer = c,
              arg_sampleRate = 48000, arg_channels = 2\<rparr>])"
    by (simp add: upload_calls_flushAndSend b e)
  then show ?thesis
    using assms uploads_are_drains_above_floor [of evs g q] b
    by (simp add: flushAndSend_users buffer_of_flushAndSend)
qed

theorem flush_drains_before_processing_witness:
  "upload_calls (flush_settled ''u'' False (flushAndSend ''u''
     (exec [SpeakingStart ''u'', DecoderData ''u'' (replicate 19200 0)]
        (AudioRecorder ''g'' 1000)))) =
     [\<lparr>arg_userId = ''u'', arg_guildId = ''g'', arg_pcmBuffer = replicate 19200 0,
       arg_sampleRate = 48000, arg_channels = 2\<rparr>] \<and>
   buffer_of ''u'' (decoder_data ''u'' [9] (flush_settled ''u'' False (flushAndSend ''u''
     (exec [SpeakingStart ''u'', DecoderData ''u'' (replicate 19200 0)]
        (AudioRecorder ''g'' 1000))))) = [[9]] \<and>
   upload_calls (flushAndSend ''u'' (decoder_data ''u'' [9] (flush_settled ''u'' False
     (flushAndSend ''u''
       (exec [SpeakingStart ''u'', DecoderData ''u'' (replicate 19200 0)]
          (AudioRecorder ''g'' 1000)))))) =
     [\<lparr>arg_userId = ''u'', arg_guildId = ''g'', arg_pcmBuffer = replicate 19200 0,
       arg_sampleRate = 48000, arg_channels = 2\<rparr>]"
proof -
  let ?s = "exec [SpeakingStart ''u'', DecoderData ''u'' (replicate 19200 0)]
      (AudioRecorder ''g'' 1000)"
  have h: "map_of (users ?s) ''u'' =
      Some \<lparr>audioChunks = [replicate 19200 0], isSpeaking = True, silenceTimer = Some 1\<rparr>"
    by (simp add: one_chunk_state)
  have d: "\<not> destroyed ?s"
    by (simp add: one_chunk_state)
  have u: "upload_calls (flushAndSend ''u'' ?s) =
      [\<lparr>arg_userId = ''u'', arg_guildId = ''g'', arg_pcmBuffer = replicate 19200 0,
        arg_sampleRate = 48000, arg_channels = 2\<rparr>]"
    by (simp add: upload_calls_flushAndSend buffer_of_def h)
      (simp add: one_chunk_state upload_calls_def List.map_filter_def)
  show ?thesis
    using flush_drains_before_processing [OF h, of False "[9]"] d u by simp
qed

subsection \<open>The teardown\<close>

lemma destroyed_True_same: "destroyed s \<Longrightarrow> s\<lparr>destroyed := True\<rparr> = s"
  by (cases s) simp

lemma users_Nil_same: "users s = [] \<Longrightarrow> s\<lparr>users := []\<rparr> = s"
  by (cases s) simp

lemma destroy_nothing_left: "destroyed s \<Longrightarrow> users s = [] \<Longrightarrow> destroy s = s"
  by (simp add: destroy_def Let_def destroyed_True_same users_Nil_same)

text \<open>
  C6: a second \<open>destroy\<close> finds the flag set and the Map empty; it returns the state of
  the first, so it adds no flush, no upload and no error.
\<close>

theorem destroy_twice:
  "destroy (destroy s) = destroy s \<and>
   flushes (destroy (destroy s)) = flushes (destroy s) \<and>
   upload_calls (destroy (destroy s)) = upload_calls (destroy s) \<and>
   errors (destroy (destroy s)) = errors (destroy s)"
  by (simp add: destroy_nothing_left)


subsection \<open>Timers and subscriptions\<close>

lemma timers_of_resetSilenceTimer:
  assumes "timers_tracked s" "map_of (users s) u = Some us"
  shows "timers_of u (resetSilenceTimer u s) =
     [(nextHandle s, now s + SILENCE_DURATION_MS s, u)]"
proof -
  have "handle_of u s = silenceTimer us"
    using assms(2) by (simp add: handle_of_def)
  then have "filter (\<lambda>t. snd (snd t) = u)
      (filter (\<lambda>t. Some (fst t) \<noteq> silenceTimer us) (timers s)) = []"
    using timers_trackedD(3) [OF assms(1)] by (auto simp: filter_empty_conv)
  then show ?thesis
    using assms(2) by (simp add: timers_of_def resetSilenceTimer_timers)
qed

lemma reachable_not_destroyed:
  assumes "registry_consistent s" "map_of (users s) u = Some us"
  shows "\<not> destroyed s"
  using assms by (auto simp: registry_consistent_def)


text \<open>
  C7: whatever events reach a recorder, in whatever order and at whatever times, a
  speaker never has more than one live silence timer. A chunk and a speaking signal for
  a tracked speaker leave that speaker with exactly the timer they install: the stored
  handle is cleared before the new timer is set.
\<close>

theorem at_most_one_live_timer:
  "length (timers_of v (exec evs (AudioRecorder g q))) \<le> 1 \<and>
   (map_of (users (exec evs (AudioRecorder g q))) u \<noteq> None \<longrightarrow>
      timers_of u (decoder_data u c (exec evs (AudioRecorder g q))) =
        [(nextHandle (exec evs (AudioRecorder g q)), now (exec evs (AudioRecorder g q)) + q, u)] \<and>
      timers_of u (handleUserSpeaking u (exec evs (AudioRecorder g q))) =
        [(nextHandle (exec evs (AudioRecorder g q)), now (exec evs (AudioRecorder g q)) + q, u)])"
proof -
  let ?s = "exec evs (AudioRecorder g q)"
  have t: "timers_tracked ?s"
    by (rule timers_tracked_exec) (rule timers_tracked_AudioRecorder)
  have r: "registry_consistent ?s"
    by (rule registry_consistent_exec) (rule registry_consistent_AudioRecorder)
  have q: "SILENCE_DURATION_MS ?s = q"
    by simp
  have "timers_of u (decoder_data u c ?s) = [(nextHandle ?s, now ?s + q, u)] \<and>
      timers_of u (handleUserSpeaking u ?s) = [(nextHandle ?s, now ?s + q, u)]"
    if "map_of (users ?s) u = Some us" for us
  proof -
    have nd: "\<not> destroyed ?s"
      using reachable_not_destroyed [OF r that] .
    let ?f = "\<lambda>us. us\<lparr>audioChunks := audioChunks us @ [c], isSpeaking := True\<rparr>"
    let ?g = "\<lambda>us. us\<lparr>isSpeaking := True\<rparr>"
    have 1: "timers_of u (resetSilenceTimer u (assign u ?f ?s)) =
        [(nextHandle (assign u ?f ?s), now (assign u ?f ?s) + SILENCE_DURATION_MS (assign u ?f ?s), u)]"
      by (rule timers_of_resetSilenceTimer [where us = "?f us"])
        (simp_all add: timers_tracked_assign t that)
    have 2: "timers_of u (resetSilenceTimer u (assign u ?g ?s)) =
        [(nextHandle (assign u ?g ?s), now (assign u ?g ?s) + SILENCE_DURATION_MS (assign u ?g ?s), u)]"
      by (rule timers_of_resetSilenceTimer [where us = "?g us"])
        (simp_all add: timers_tracked_assign t that)
    show ?thesis
      using 1 2 nd that q by (simp add: decoder_data_def handleUserSpeaking_def)
  qed
  then show ?thesis
    using at_most_one_timer [OF t] by auto
qed

theorem at_most_one_live_timer_witness:
  "map_of (users (exec [SpeakingStart ''u''] (AudioRecorder ''g'' 1000))) ''u'' \<noteq> None \<and>
   timers_of ''u'' (decoder_data ''u'' [7] (exec [SpeakingStart ''u''] (AudioRecorder ''g'' 1000)))
     = [(1, 1000, ''u'')]"
proof -
  let ?s = "exec [SpeakingStart ''u''] (AudioRecorder ''g'' 1000)"
  have h: "map_of (users ?s) ''u'' \<noteq> None"
    by (simp add: recorder_eval)
  have e: "nextHandle ?s = 1" "now ?s = 0"
    by (simp_all add: recorder_eval)
  show ?thesis
    using h at_most_one_live_timer [of "''u''" "[SpeakingStart ''u'']" "''g''" 1000 "''u''" "[7]"]
    by (simp add: e)
qed



subsection \<open>A flush does not end the session\<close>

lemma streams_destroyed_emit:
  "streams_destroyed (emit es s) = streams_destroyed s @ List.map_filter destroyed_of es"
  by (simp add: streams_destroyed_def map_filter_append)

lemma streams_destroyed_field_updates [simp]:
  "streams_destroyed (assign u f s) = streams_destroyed s"
  "streams_destroyed (clearTimeout h s) = streams_destroyed s"
  "streams_destroyed (s\<lparr>destroyed := b\<rparr>) = streams_destroyed s"
  "streams_destroyed (s\<lparr>users := xs\<rparr>) = streams_destroyed s"
  by (simp_all add: streams_destroyed_def)

lemma streams_destroyed_flushAndSend [simp]:
  "streams_destroyed (flushAndSend u s) = streams_destroyed s"
  by (simp add: flushAndSend_def Let_def streams_destroyed_emit List.map_filter_def
      split: option.splits sum.splits)


lemma keys_set_destroy_user [simp]:
  "fst ` set (users (destroy_user s u)) = fst ` set (users s)"
proof -
  have "set (map fst (users (destroy_user s u))) = set (map fst (users s))"
    by (simp only: destroy_user_frame)
  then show ?thesis
    by (simp only: set_map)
qed




lemma find_live_timer:
  assumes "distinct (map fst ts)" "(h, d, u) \<in> set ts"
  shows "find (\<lambda>t. fst t = h) ts = Some (h, d, u)"
  using assms by (induction ts) (auto simp: rev_image_eqI)





text \<open>
  After the close of the stream the entry is still in the Map: the next speaking signal
  finds it and does not subscribe again.
\<close>

lemma speaking_after_close_finds_entry:
  "subscriptions (exec [SpeakingStart ''u'', StreamClose ''u'', SpeakingStart ''u'']
      (AudioRecorder ''g'' 1000)) = [''u'']"
  by (simp add: recorder_eval subscriptions_def List.map_filter_def)


subsection \<open>Timers in the order of their due times, and no handle stored twice\<close>

lemma timers_fire: "timers (fire h s) = filter (\<lambda>t. fst t \<noteq> h) (timers s)"
proof (cases "find (\<lambda>t. fst t = h) (timers s)")
  case None
  then have "\<forall>t\<in>set (timers s). fst t \<noteq> h"
    by (auto simp: find_None_iff)
  then have "filter (\<lambda>t. fst t \<noteq> h) (timers s) = timers s"
    by (simp add: filter_id_conv)
  then show ?thesis
    using None by (simp add: fire_def)
next
  case (Some x)
  then show ?thesis
    by (cases x) (simp add: fire_def)
qed

lemma timers_in_order_filter:
  assumes "timers_in_order s" "timers s' = filter P (timers s)" "now s \<le> now s'"
    "SILENCE_DURATION_MS s' = SILENCE_DURATION_MS s"
  shows "timers_in_order s'"
  using assms by (auto simp: timers_in_order_def list_all_iff sorted_filter)

lemma timers_in_order_same:
  assumes "timers_in_order s" "timers s' = timers s" "now s \<le> now s'"
    "SILENCE_DURATION_MS s' = SILENCE_DURATION_MS s"
  shows "timers_in_order s'"
  using assms by (auto simp: timers_in_order_def list_all_iff)

lemma timers_in_order_resetSilenceTimer:
  assumes "timers_in_order s"
  shows "timers_in_order (resetSilenceTimer u s)"
proof (cases "map_of (users s) u")
  case None
  then show ?thesis using assms by (simp add: resetSilenceTimer_def)
next
  case (Some us)
  have "sorted (map (\<lambda>t. fst (snd t)) (filter (\<lambda>t. Some (fst t) \<noteq> silenceTimer us) (timers s)))"
    using assms by (simp add: timers_in_order_def sorted_filter)
  then show ?thesis
    using assms Some
    by (auto simp: timers_in_order_def resetSilenceTimer_timers sorted_append list_all_iff)
qed

lemma timers_in_order_handleUserSpeaking:
  assumes "timers_in_order s"
  shows "timers_in_order (handleUserSpeaking u s)"
proof -
  have a: "timers_in_order (assign u f s)" for f
    by (rule timers_in_order_same [OF assms]) simp_all
  have b: "timers_in_order (emit [Subscribe u] (emit [ConsoleLog (Subscribing u)] s)
        \<lparr>users := xs\<rparr>)" for xs
    by (rule timers_in_order_same [OF assms]) simp_all
  show ?thesis
    using a b assms
    by (auto simp: handleUserSpeaking_def Let_def intro!: timers_in_order_resetSilenceTimer)
qed

lemma timers_in_order_decoder_data:
  assumes "timers_in_order s"
  shows "timers_in_order (decoder_data u c s)"
proof -
  have a: "timers_in_order (assign u f s)" for f
    by (rule timers_in_order_same [OF assms]) simp_all
  show ?thesis
    using a assms by (auto simp: decoder_data_def intro!: timers_in_order_resetSilenceTimer)
qed

lemma timers_in_order_fire: "timers_in_order s \<Longrightarrow> timers_in_order (fire h s)"
  by (erule timers_in_order_filter [where P = "\<lambda>t. fst t \<noteq> h"]) (simp_all add: timers_fire)

lemma timers_in_order_now:
  "timers_in_order s \<Longrightarrow> now s \<le> t \<Longrightarrow> timers_in_order (s\<lparr>now := t\<rparr>)"
  by (erule timers_in_order_same) simp_all

lemma timers_in_order_fire_all: "timers_in_order s \<Longrightarrow> timers_in_order (fire_all ts s)"
proof (induction ts s rule: fire_all.induct)
  case (1 s)
  then show ?case by simp
next
  case (2 h due u ts s)
  have "timers_in_order (fire h (s\<lparr>now := max (now s) due\<rparr>))"
    by (intro timers_in_order_fire timers_in_order_now 2) simp
  then show ?case
    by (simp add: 2)
qed

lemma timers_in_order_advance: "timers_in_order s \<Longrightarrow> timers_in_order (advance t s)"
  unfolding advance_def Let_def
  by (intro timers_in_order_now timers_in_order_fire_all) simp_all

lemma timers_in_order_destroy:
  assumes "timers_in_order s"
  shows "timers_in_order (destroy s)"
proof (rule timers_in_order_filter [OF assms])
  show "timers (destroy s) =
      filter (\<lambda>t. \<forall>k\<in>set (map fst (users s)). Some (fst t) \<noteq> handle_of k s) (timers s)"
    by (simp add: destroy_def Let_def timers_foldl_destroy_user)
qed simp_all

lemma timers_in_order_step: "timers_in_order s \<Longrightarrow> timers_in_order (step s e)"
proof (cases e)
  case (SpeakingStart u)
  assume "timers_in_order s"
  then show ?thesis using SpeakingStart by (simp add: timers_in_order_handleUserSpeaking)
next
  case (DecoderData u c)
  assume "timers_in_order s"
  then show ?thesis using DecoderData by (simp add: timers_in_order_decoder_data)
next
  case Destroy
  assume "timers_in_order s"
  then show ?thesis using Destroy by (simp add: timers_in_order_destroy)
next
  case (Elapse t)
  assume "timers_in_order s"
  then show ?thesis using Elapse by (simp add: timers_in_order_advance)
qed (auto elim!: timers_in_order_same simp: decoder_error_def opusStream_error_def)

lemma handles_fresh_same:
  assumes "handles_fresh s" "\<And>k. handle_of k s' = handle_of k s" "nextHandle s \<le> nextHandle s'"
  shows "handles_fresh s'"
  unfolding handles_fresh_def
proof (intro conjI allI impI)
  fix k h assume "handle_of k s' = Some h"
  then have "h < nextHandle s"
    using assms(1,2) by (simp add: handles_fresh_def)
  then show "h < nextHandle s'"
    using assms(3) by simp
next
  fix k k' h assume "handle_of k s' = Some h" "handle_of k' s' = Some h"
  then show "k = k'"
    using assms(1,2) unfolding handles_fresh_def by metis
qed

lemma handles_fresh_resetSilenceTimer:
  assumes "handles_fresh s"
  shows "handles_fresh (resetSilenceTimer u s)"
proof (cases "map_of (users s) u")
  case None
  then show ?thesis using assms by (simp add: resetSilenceTimer_def)
next
  case (Some us)
  have old: "h < nextHandle s" if "handle_of k s = Some h" for k h
    using assms that unfolding handles_fresh_def by blast
  have inj: "k = k'" if "handle_of k s = Some h" "handle_of k' s = Some h" for k k' h
    using assms that unfolding handles_fresh_def by blast
  show ?thesis
    unfolding handles_fresh_def
  proof (intro conjI allI impI)
    fix k h assume "handle_of k (resetSilenceTimer u s) = Some h"
    then show "h < nextHandle (resetSilenceTimer u s)"
      using Some old [of k h]
      by (auto simp: handle_of_resetSilenceTimer resetSilenceTimer_nextHandle split: if_splits)
  next
    fix k k' h
    assume "handle_of k (resetSilenceTimer u s) = Some h"
      "handle_of k' (resetSilenceTimer u s) = Some h"
    then show "k = k'"
      using Some old [of k h] old [of k' h] inj [of k h k']
      by (auto simp: handle_of_resetSilenceTimer split: if_splits)
  qed
qed

lemma handles_fresh_handleUserSpeaking:
  assumes "handles_fresh s"
  shows "handles_fresh (handleUserSpeaking u s)"
proof -
  have a: "handles_fresh (assign u (\<lambda>us. us\<lparr>isSpeaking := True\<rparr>) s)"
    by (rule handles_fresh_same [OF assms]) (simp_all add: handle_of_assign)
  have b: "handles_fresh (emit [Subscribe u] (emit [ConsoleLog (Subscribing u)] s)
        \<lparr>users := AList.update u \<lparr>audioChunks = [], isSpeaking = True, silenceTimer = None\<rparr>
           (users (emit [Subscribe u] (emit [ConsoleLog (Subscribing u)] s)))\<rparr>)"
    if "map_of (users s) u = None"
  proof (rule handles_fresh_same [OF assms])
    fix k
    show "handle_of k (emit [Subscribe u] (emit [ConsoleLog (Subscribing u)] s)
        \<lparr>users := AList.update u \<lparr>audioChunks = [], isSpeaking = True, silenceTimer = None\<rparr>
           (users (emit [Subscribe u] (emit [ConsoleLog (Subscribing u)] s)))\<rparr>) = handle_of k s"
      using that by (simp add: handle_of_def AList.update_conv' split: option.splits)
  qed simp
  show ?thesis
    using a b assms
    by (auto simp: handleUserSpeaking_def Let_def intro!: handles_fresh_resetSilenceTimer)
qed

lemma handles_fresh_decoder_data:
  assumes "handles_fresh s"
  shows "handles_fresh (decoder_data u c s)"
proof -
  have a: "handles_fresh (assign u (\<lambda>us. us\<lparr>audioChunks := audioChunks us @ [c],
      isSpeaking := True\<rparr>) s)"
    by (rule handles_fresh_same [OF assms]) (simp_all add: handle_of_assign)
  show ?thesis
    using a assms by (auto simp: decoder_data_def intro!: handles_fresh_resetSilenceTimer)
qed

lemma handle_of_fire [simp]: "handle_of k (fire h s) = handle_of k s"
  by (simp add: fire_def split: option.splits)

lemma handle_of_fire_all [simp]: "handle_of k (fire_all ts s) = handle_of k s"
  by (induction ts s rule: fire_all.induct) simp_all

lemma handle_of_advance [simp]: "handle_of k (advance t s) = handle_of k s"
  by (simp add: advance_def Let_def)

lemma handles_fresh_destroy: "handles_fresh (destroy s)"
  by (simp add: handles_fresh_def handle_of_def)

lemma handles_fresh_step: "handles_fresh s \<Longrightarrow> handles_fresh (step s e)"
proof (cases e)
  case (SpeakingStart u)
  assume "handles_fresh s"
  then show ?thesis using SpeakingStart by (simp add: handles_fresh_handleUserSpeaking)
next
  case (DecoderData u c)
  assume "handles_fresh s"
  then show ?thesis using DecoderData by (simp add: handles_fresh_decoder_data)
next
  case Destroy
  then show ?thesis by (simp add: handles_fresh_destroy)
qed (auto elim!: handles_fresh_same simp: decoder_error_def opusStream_error_def)

lemma recorder_inv_step: "recorder_inv s \<Longrightarrow> recorder_inv (step s e)"
  by (simp add: recorder_inv_def timers_tracked_step timers_in_order_step handles_fresh_step
      registry_consistent_step)

lemma recorder_inv_exec: "recorder_inv s \<Longrightarrow> recorder_inv (exec evs s)"
  unfolding exec_def by (induction evs arbitrary: s) (simp_all add: recorder_inv_step)

lemma recorder_inv_AudioRecorder: "recorder_inv (AudioRecorder g q)"
  by (simp add: recorder_inv_def timers_tracked_AudioRecorder registry_consistent_AudioRecorder)
    (simp add: timers_in_order_def handles_fresh_def handle_of_def AudioRecorder_def)

subsection \<open>What an event does to the session of a speaker\<close>

lemma subscribed_iff: "subscribed u s \<longleftrightarrow> u \<in> set (subscriptions s)"
proof -
  have "u \<in> set (List.map_filter subscribed_of es) \<longleftrightarrow> Subscribe u \<in> set es" for es
  proof (induction es)
    case Nil
    then show ?case by (simp add: List.map_filter_def)
  next
    case (Cons e es)
    then show ?case by (cases e) (auto simp: List.map_filter_def)
  qed
  then show ?thesis
    by (simp add: subscribed_def subscriptions_def)
qed

lemma session_okD:
  assumes "session_ok g q u s"
  shows "recorder_inv s" "timers_tracked s" "timers_in_order s" "handles_fresh s"
    "\<not> destroyed s" "guildId s = g" "SILENCE_DURATION_MS s = q" "subscribed u s"
    "map_of (users s) u \<noteq> None"
proof -
  show "recorder_inv s" "timers_tracked s" "timers_in_order s" "handles_fresh s"
    "\<not> destroyed s" "guildId s = g" "SILENCE_DURATION_MS s = q" "subscribed u s"
    using assms by (simp_all add: session_ok_def recorder_inv_def subscribed_iff)
  have "map fst (users s) = subscriptions s" "u \<in> set (subscriptions s)"
    using assms by (simp_all add: session_ok_def recorder_inv_def registry_consistent_def)
  then have "u \<in> fst ` set (users s)"
    by (metis set_map)
  then show "map_of (users s) u \<noteq> None"
    by (simp add: map_of_eq_None_iff)
qed

lemma destroyed_step: "e \<noteq> Destroy \<Longrightarrow> destroyed (step s e) = destroyed s"
  by (cases e) simp_all

lemma subscriptions_step: "u \<in> set (subscriptions s) \<Longrightarrow> u \<in> set (subscriptions (step s e))"
  by (cases e) (simp_all add: subscriptions_handleUserSpeaking)

lemma session_ok_step:
  assumes "session_ok g q u s" "e \<noteq> Destroy"
  shows "session_ok g q u (step s e)"
  using assms
  by (simp add: session_ok_def recorder_inv_step destroyed_step subscriptions_step)

lemma now_stream_errors [simp]:
  "now (decoder_error v s) = now s"
  "now (opusStream_error v s) = now s"
  by (simp_all add: decoder_error_def opusStream_error_def)

lemma flushes_handleUserSpeaking [simp]:
  "flushes (handleUserSpeaking v s) = flushes s"
  "upload_calls (handleUserSpeaking v s) = upload_calls s"
  by (simp_all add: handleUserSpeaking_def Let_def flushes_emit upload_calls_emit
      List.map_filter_def)

lemma flushes_decoder_data [simp]:
  "flushes (decoder_data v c s) = flushes s"
  "upload_calls (decoder_data v c s) = upload_calls s"
  by (simp_all add: decoder_data_def)

lemma flushes_stream_errors [simp]:
  "flushes (decoder_error v s) = flushes s"
  "upload_calls (decoder_error v s) = upload_calls s"
  "flushes (opusStream_error v s) = flushes s"
  "upload_calls (opusStream_error v s) = upload_calls s"
  by (simp_all add: decoder_error_def opusStream_error_def flushes_emit upload_calls_emit
      List.map_filter_def)

lemma buffer_of_handleUserSpeaking [simp]:
  "buffer_of k (handleUserSpeaking v s) = buffer_of k s"
proof (cases "map_of (users s) v")
  case None
  then show ?thesis
    by (simp add: handleUserSpeaking_def Let_def)
      (simp add: buffer_of_def AList.update_conv')
next
  case (Some vs)
  then show ?thesis
    by (simp add: handleUserSpeaking_def)
qed

lemma buffer_of_decoder_data:
  "buffer_of k (decoder_data v c s) =
     (if \<not> destroyed s \<and> k = v \<and> map_of (users s) v \<noteq> None then buffer_of v s @ [c]
      else buffer_of k s)"
  by (simp add: decoder_data_def buffer_of_assign) (auto simp: buffer_of_def split: option.splits)

lemma buffer_of_stream_errors [simp]:
  "buffer_of k (decoder_error v s) = buffer_of k s"
  "buffer_of k (opusStream_error v s) = buffer_of k s"
  by (simp_all add: decoder_error_def opusStream_error_def)

lemma timers_of_field_updates [simp]:
  "timers_of u (assign v f s) = timers_of u s"
  "timers_of u (emit es s) = timers_of u s"
  "timers_of u (flushAndSend v s) = timers_of u s"
  "timers_of u (silence_timeout v s) = timers_of u s"
  "timers_of u (opusStream_close v s) = timers_of u s"
  "timers_of u (flush_settled v ok s) = timers_of u s"
  "timers_of u (decoder_error v s) = timers_of u s"
  "timers_of u (opusStream_error v s) = timers_of u s"
  "timers_of u (s\<lparr>now := t\<rparr>) = timers_of u s"
  by (simp_all add: timers_of_def decoder_error_def opusStream_error_def)

lemma stored_by_one_speaker:
  assumes "timers_tracked s" "handles_fresh s" "v \<noteq> u" "t \<in> set (timers s)" "snd (snd t) = u"
  shows "Some (fst t) \<noteq> handle_of v s"
proof
  assume "Some (fst t) = handle_of v s"
  moreover have "handle_of u s = Some (fst t)"
    using timers_trackedD(3) [OF assms(1,4)] assms(5) by simp
  ultimately have "u = v"
    using assms(2) unfolding handles_fresh_def by metis
  then show False
    using assms(3) by simp
qed

lemma timers_of_resetSilenceTimer_other:
  assumes "\<And>t. t \<in> set (timers s) \<Longrightarrow> snd (snd t) = u \<Longrightarrow> Some (fst t) \<noteq> handle_of v s"
    "v \<noteq> u"
  shows "timers_of u (resetSilenceTimer v s) = timers_of u s"
proof (cases "map_of (users s) v")
  case None
  then show ?thesis by (simp add: resetSilenceTimer_def)
next
  case (Some vs)
  have "handle_of v s = silenceTimer vs"
    using Some by (simp add: handle_of_def)
  then have "filter (\<lambda>t. snd (snd t) = u)
      (filter (\<lambda>t. Some (fst t) \<noteq> silenceTimer vs) (timers s)) =
      filter (\<lambda>t. snd (snd t) = u) (timers s)"
    using assms(1) by (auto intro!: filter_cong)
  then show ?thesis
    using Some assms(2) by (simp add: timers_of_def resetSilenceTimer_timers)
qed

lemma timers_of_handleUserSpeaking_other:
  assumes "timers_tracked s" "handles_fresh s" "v \<noteq> u"
  shows "timers_of u (handleUserSpeaking v s) = timers_of u s"
proof -
  note other = stored_by_one_speaker [OF assms]
  have a: "timers_of u (resetSilenceTimer v (assign v (\<lambda>us. us\<lparr>isSpeaking := True\<rparr>) s)) =
      timers_of u (assign v (\<lambda>us. us\<lparr>isSpeaking := True\<rparr>) s)"
    by (rule timers_of_resetSilenceTimer_other) (use other assms(3) in \<open>simp_all add: handle_of_assign\<close>)
  let ?s3 = "emit [Subscribe v] (emit [ConsoleLog (Subscribing v)] s)
        \<lparr>users := AList.update v \<lparr>audioChunks = [], isSpeaking = True, silenceTimer = None\<rparr>
           (users (emit [Subscribe v] (emit [ConsoleLog (Subscribing v)] s)))\<rparr>"
  have b: "timers_of u (resetSilenceTimer v ?s3) = timers_of u ?s3"
    by (rule timers_of_resetSilenceTimer_other)
      (use assms(3) in \<open>simp_all add: handle_of_def AList.update_conv'\<close>)
  have c: "timers_of u ?s3 = timers_of u s"
    by (simp add: timers_of_def)
  show ?thesis
    using a b c by (simp add: handleUserSpeaking_def Let_def)
qed

lemma timers_of_decoder_data_other:
  assumes "timers_tracked s" "handles_fresh s" "v \<noteq> u"
  shows "timers_of u (decoder_data v c s) = timers_of u s"
proof -
  note other = stored_by_one_speaker [OF assms]
  let ?s1 = "assign v (\<lambda>us. us\<lparr>audioChunks := audioChunks us @ [c], isSpeaking := True\<rparr>) s"
  have "timers_of u (resetSilenceTimer v ?s1) = timers_of u ?s1"
    by (rule timers_of_resetSilenceTimer_other) (use other assms(3) in \<open>simp_all add: handle_of_assign\<close>)
  then show ?thesis
    by (simp add: decoder_data_def)
qed

lemma timers_of_handleUserSpeaking_same:
  assumes "timers_tracked s" "\<not> destroyed s" "map_of (users s) u \<noteq> None"
  shows "timers_of u (handleUserSpeaking u s) =
     [(nextHandle s, now s + SILENCE_DURATION_MS s, u)]"
proof -
  let ?s1 = "assign u (\<lambda>us. us\<lparr>isSpeaking := True\<rparr>) s"
  obtain us where us: "map_of (users s) u = Some us"
    using assms(3) by auto
  have "timers_tracked ?s1"
    by (rule timers_tracked_assign) (simp_all add: assms(1))
  moreover have "map_of (users ?s1) u = Some (us\<lparr>isSpeaking := True\<rparr>)"
    using us by simp
  ultimately have "timers_of u (resetSilenceTimer u ?s1) =
      [(nextHandle ?s1, now ?s1 + SILENCE_DURATION_MS ?s1, u)]"
    by (rule timers_of_resetSilenceTimer)
  then show ?thesis
    using assms(2,3) by (simp add: handleUserSpeaking_def)
qed

lemma timers_of_decoder_data_same:
  assumes "timers_tracked s" "\<not> destroyed s" "map_of (users s) u \<noteq> None"
  shows "timers_of u (decoder_data u c s) =
     [(nextHandle s, now s + SILENCE_DURATION_MS s, u)]"
proof -
  let ?s1 = "assign u (\<lambda>us. us\<lparr>audioChunks := audioChunks us @ [c], isSpeaking := True\<rparr>) s"
  obtain us where us: "map_of (users s) u = Some us"
    using assms(3) by auto
  have "timers_tracked ?s1"
    by (rule timers_tracked_assign) (simp_all add: assms(1))
  moreover have "map_of (users ?s1) u =
      Some (us\<lparr>audioChunks := audioChunks us @ [c], isSpeaking := True\<rparr>)"
    using us by simp
  ultimately have "timers_of u (resetSilenceTimer u ?s1) =
      [(nextHandle ?s1, now ?s1 + SILENCE_DURATION_MS ?s1, u)]"
    by (rule timers_of_resetSilenceTimer)
  then show ?thesis
    using assms(2) by (simp add: decoder_data_def)
qed

text \<open>The events of other speakers, stream errors and settled uploads.\<close>

lemma bystander_step:
  assumes "timers_tracked s" "handles_fresh s" "bystander u e"
  shows "buffer_of u (step s e) = buffer_of u s"
    "timers_of u (step s e) = timers_of u s"
    "flushes_of u (step s e) = flushes_of u s"
    "upload_calls_of u (step s e) = upload_calls_of u s"
    "now (step s e) = now s"
proof -
  show "buffer_of u (step s e) = buffer_of u s"
    using assms(3)
    by (cases e) (simp_all add: buffer_of_decoder_data opusStream_close_observations)
  show "timers_of u (step s e) = timers_of u s"
    using assms
    by (cases e)
      (simp_all add: timers_of_handleUserSpeaking_other timers_of_decoder_data_other)
  show "flushes_of u (step s e) = flushes_of u s"
    using assms(3)
    by (cases e) (simp_all add: flushes_of_def opusStream_close_observations)
  show "upload_calls_of u (step s e) = upload_calls_of u s"
    using assms(3)
    by (cases e) (simp_all add: upload_calls_of_def opusStream_close_observations)
  show "now (step s e) = now s"
    using assms(3) by (cases e) simp_all
qed

text \<open>A speaking signal of the speaker, and a chunk.\<close>

lemma speaking_step:
  assumes "session_ok g q u s"
  shows "buffer_of u (step s (SpeakingStart u)) = buffer_of u s"
    "timers_of u (step s (SpeakingStart u)) = [(nextHandle s, now s + q, u)]"
    "flushes_of u (step s (SpeakingStart u)) = flushes_of u s"
    "upload_calls_of u (step s (SpeakingStart u)) = upload_calls_of u s"
  using session_okD [OF assms]
  by (simp_all add: timers_of_handleUserSpeaking_same flushes_of_def upload_calls_of_def)

lemma chunk_step:
  assumes "session_ok g q u s"
  shows "buffer_of u (step s (DecoderData u c)) = buffer_of u s @ [c]"
    "timers_of u (step s (DecoderData u c)) = [(nextHandle s, now s + q, u)]"
    "flushes_of u (step s (DecoderData u c)) = flushes_of u s"
    "upload_calls_of u (step s (DecoderData u c)) = upload_calls_of u s"
    "now (step s (DecoderData u c)) = now s"
  using session_okD [OF assms]
  by (simp_all add: timers_of_decoder_data_same buffer_of_decoder_data flushes_of_def
      upload_calls_of_def)

subsection \<open>Timers coming due\<close>

lemma fire_cases:
  obtains "fire h s = s" "\<forall>t\<in>set (timers s). fst t \<noteq> h"
  | d v where "(h, d, v) \<in> set (timers s)" "fire h s = silence_timeout v (clearTimeout h s)"
proof (cases "find (\<lambda>t. fst t = h) (timers s)")
  case None
  then have "\<forall>t\<in>set (timers s). fst t \<noteq> h"
    by (auto simp: find_None_iff)
  then show ?thesis
    using None that(1) by (simp add: fire_def)
next
  case (Some x)
  obtain h' d v where x: "x = (h', d, v)"
    by (cases x)
  have "x \<in> set (timers s)" "fst x = h"
    using Some by (auto simp: find_Some_iff)
  then show ?thesis
    using Some that(2) [of d v] by (simp add: fire_def x)
qed

lemma timers_of_fire: "timers_of u (fire h s) = filter (\<lambda>t. fst t \<noteq> h) (timers_of u s)"
  by (simp add: timers_of_def timers_fire) (metis filter_cong)

lemma fire_quiet:
  assumes "buffer_of u s = []"
  shows "buffer_of u (fire h s) = []"
    "flushes_of u (fire h s) = flushes_of u s"
    "upload_calls_of u (fire h s) = upload_calls_of u s"
proof -
  show "buffer_of u (fire h s) = []"
    by (rule fire_cases [of h s])
      (use assms in \<open>simp_all add: silence_timeout_observations\<close>)
  show "flushes_of u (fire h s) = flushes_of u s"
    by (rule fire_cases [of h s])
      (use assms in \<open>simp_all add: silence_timeout_observations flushes_of_def\<close>)
  show "upload_calls_of u (fire h s) = upload_calls_of u s"
    by (rule fire_cases [of h s])
      (use assms in \<open>simp_all add: silence_timeout_observations upload_calls_of_def\<close>)
qed

lemma fire_other:
  assumes "timers_of u s = [(h, d, u)]" "h' \<noteq> h"
  shows "buffer_of u (fire h' s) = buffer_of u s"
    "timers_of u (fire h' s) = [(h, d, u)]"
    "flushes_of u (fire h' s) = flushes_of u s"
    "upload_calls_of u (fire h' s) = upload_calls_of u s"
proof -
  show "timers_of u (fire h' s) = [(h, d, u)]"
    using assms by (simp add: timers_of_fire)
  have other: "v \<noteq> u" if "(h', d', v) \<in> set (timers s)" for d' v
  proof
    assume "v = u"
    then have "(h', d', u) \<in> set (timers_of u s)"
      using that by (simp add: timers_of_def)
    then show False
      using assms by simp
  qed
  show "buffer_of u (fire h' s) = buffer_of u s"
    by (rule fire_cases [of h' s]) (auto simp: silence_timeout_observations dest: other)
  show "flushes_of u (fire h' s) = flushes_of u s"
    by (rule fire_cases [of h' s])
      (auto simp: silence_timeout_observations flushes_of_def dest: other)
  show "upload_calls_of u (fire h' s) = upload_calls_of u s"
    by (rule fire_cases [of h' s])
      (auto simp: silence_timeout_observations upload_calls_of_def dest: other)
qed

lemma fire_own:
  assumes "timers_of u s = [(h, d, u)]" "distinct (map fst (timers s))"
  shows "buffer_of u (fire h s) = []"
    "timers_of u (fire h s) = []"
    "flushes_of u (fire h s) =
       flushes_of u s @ (if buffer_of u s = [] then [] else [(now s, u, concat (buffer_of u s))])"
    "upload_calls_of u (fire h s) =
       upload_calls_of u s @
       (if buffer_of u s = [] \<or> length (concat (buffer_of u s)) < 19200 then []
        else [\<lparr>arg_userId = u, arg_guildId = guildId s, arg_pcmBuffer = concat (buffer_of u s),
               arg_sampleRate = 48000, arg_channels = 2\<rparr>])"
proof -
  have "(h, d, u) \<in> set (timers_of u s)"
    using assms(1) by simp
  then have "(h, d, u) \<in> set (timers s)"
    by (simp add: timers_of_def)
  then have "find (\<lambda>t. fst t = h) (timers s) = Some (h, d, u)"
    using assms(2) by (rule find_live_timer [rotated])
  then have f: "fire h s = silence_timeout u (clearTimeout h s)"
    by (simp add: fire_def)
  show "buffer_of u (fire h s) = []"
    by (simp add: f silence_timeout_observations)
  show "timers_of u (fire h s) = []"
    using assms(1) by (simp add: timers_of_fire)
  show "flushes_of u (fire h s) =
       flushes_of u s @ (if buffer_of u s = [] then [] else [(now s, u, concat (buffer_of u s))])"
    by (simp add: f silence_timeout_observations flushes_of_def)
  show "upload_calls_of u (fire h s) =
       upload_calls_of u s @
       (if buffer_of u s = [] \<or> length (concat (buffer_of u s)) < 19200 then []
        else [\<lparr>arg_userId = u, arg_guildId = guildId s, arg_pcmBuffer = concat (buffer_of u s),
               arg_sampleRate = 48000, arg_channels = 2\<rparr>])"
    by (simp add: f silence_timeout_observations upload_calls_of_def)
qed

lemma observations_now [simp]:
  "flushes_of u (s\<lparr>now := t\<rparr>) = flushes_of u s"
  "upload_calls_of u (s\<lparr>now := t\<rparr>) = upload_calls_of u s"
  by (simp_all add: flushes_of_def upload_calls_of_def)

lemma timers_fire_all:
  "timers (fire_all ts s) = filter (\<lambda>x. fst x \<notin> fst ` set ts) (timers s)"
proof (induction ts s rule: fire_all.induct)
  case (1 s)
  then show ?case by simp
next
  case (2 h due u ts s)
  show ?case
    by (simp add: 2 timers_fire)
qed

lemma fire_all_append: "fire_all (ts @ ts') s = fire_all ts' (fire_all ts s)"
  by (induction ts s rule: fire_all.induct) simp_all

lemma now_fire_all:
  "now s \<le> now (fire_all ts s)"
  "now s \<le> T \<Longrightarrow> \<forall>t\<in>set ts. fst (snd t) \<le> T \<Longrightarrow> now (fire_all ts s) \<le> T"
proof -
  show "now s \<le> now (fire_all ts s)"
  proof (induction ts s rule: fire_all.induct)
    case (1 s)
    then show ?case by simp
  next
    case (2 h due u ts s)
    have "now s \<le> now (fire h (s\<lparr>now := max (now s) due\<rparr>))"
      by simp
    then show ?case
      using 2 by (simp del: fire_frame)
  qed
  show "now s \<le> T \<Longrightarrow> \<forall>t\<in>set ts. fst (snd t) \<le> T \<Longrightarrow> now (fire_all ts s) \<le> T"
    by (induction ts s rule: fire_all.induct) simp_all
qed

lemma now_advance: "now (advance t s) = max (now s) t"
proof -
  let ?ts = "filter (\<lambda>tm. fst (snd tm) \<le> t) (timers s)"
  have "now s \<le> now (fire_all ?ts s)"
    by (rule now_fire_all)
  moreover have "now (fire_all ?ts s) \<le> max (now s) t"
    by (rule now_fire_all) auto
  ultimately have "max (now (fire_all ?ts s)) t = max (now s) t"
    by linarith
  then show ?thesis
    by (simp add: advance_def Let_def)
qed

lemma fire_all_quiet:
  assumes "buffer_of u s = []"
  shows "buffer_of u (fire_all ts s) = [] \<and>
    flushes_of u (fire_all ts s) = flushes_of u s \<and>
    upload_calls_of u (fire_all ts s) = upload_calls_of u s"
  using assms
proof (induction ts s rule: fire_all.induct)
  case (1 s)
  then show ?case by simp
next
  case (2 h due v ts s)
  let ?s1 = "s\<lparr>now := max (now s) due\<rparr>"
  have b: "buffer_of u ?s1 = []"
    using 2(2) by simp
  show ?case
    using 2(1) [OF fire_quiet(1) [OF b]] by (simp add: fire_quiet(2,3) [OF b])
qed

lemma fire_all_other:
  assumes "timers_of u s = [(h, d, u)]" "h \<notin> fst ` set ts"
  shows "buffer_of u (fire_all ts s) = buffer_of u s \<and>
    timers_of u (fire_all ts s) = [(h, d, u)] \<and>
    flushes_of u (fire_all ts s) = flushes_of u s \<and>
    upload_calls_of u (fire_all ts s) = upload_calls_of u s"
  using assms
proof (induction ts s rule: fire_all.induct)
  case (1 s)
  then show ?case by simp
next
  case (2 h' due v ts s)
  let ?s1 = "s\<lparr>now := max (now s) due\<rparr>"
  have t: "timers_of u ?s1 = [(h, d, u)]" and ne: "h' \<noteq> h" and rest: "h \<notin> fst ` set ts"
    using 2(2,3) by auto
  show ?case
    using 2(1) [OF fire_other(2) [OF t ne] rest] by (simp add: fire_other(1,3,4) [OF t ne])
qed

text \<open>The clock moving on, seen from one speaker.\<close>

lemma advance_quiet:
  assumes "buffer_of u s = []"
  shows "buffer_of u (advance t s) = []"
    "flushes_of u (advance t s) = flushes_of u s"
    "upload_calls_of u (advance t s) = upload_calls_of u s"
  using fire_all_quiet [OF assms] by (simp_all add: advance_def Let_def)

lemma advance_early:
  assumes "timers_of u s = [(h, d, u)]" "t < d" "distinct (map fst (timers s))"
  shows "buffer_of u (advance t s) = buffer_of u s"
    "timers_of u (advance t s) = [(h, d, u)]"
    "flushes_of u (advance t s) = flushes_of u s"
    "upload_calls_of u (advance t s) = upload_calls_of u s"
proof -
  let ?ts = "filter (\<lambda>tm. fst (snd tm) \<le> t) (timers s)"
  have "h \<notin> fst ` set ?ts"
  proof
    assume "h \<in> fst ` set ?ts"
    then obtain d' v where x: "(h, d', v) \<in> set (timers s)" "d' \<le> t"
      by auto
    have "(h, d, u) \<in> set (timers_of u s)"
      using assms(1) by simp
    then have "(h, d, u) \<in> set (timers s)"
      by (simp add: timers_of_def)
    then have "d' = d"
      using x(1) assms(3) by (meson eq_key_imp_eq_value prod.inject)
    then show False
      using x(2) assms(2) by simp
  qed
  from fire_all_other [OF assms(1) this]
  show "buffer_of u (advance t s) = buffer_of u s"
    "timers_of u (advance t s) = [(h, d, u)]"
    "flushes_of u (advance t s) = flushes_of u s"
    "upload_calls_of u (advance t s) = upload_calls_of u s"
    by (simp_all add: advance_def Let_def)
qed

lemma advance_due:
  assumes "timers_of u s = [(h, d, u)]" "d \<le> t" "now s \<le> d"
    "distinct (map fst (timers s))" "sorted (map (\<lambda>t. fst (snd t)) (timers s))"
  shows "buffer_of u (advance t s) = []"
    "flushes_of u (advance t s) =
       flushes_of u s @ (if buffer_of u s = [] then [] else [(d, u, concat (buffer_of u s))])"
    "upload_calls_of u (advance t s) =
       upload_calls_of u s @
       (if buffer_of u s = [] \<or> length (concat (buffer_of u s)) < 19200 then []
        else [\<lparr>arg_userId = u, arg_guildId = guildId s, arg_pcmBuffer = concat (buffer_of u s),
               arg_sampleRate = 48000, arg_channels = 2\<rparr>])"
proof -
  let ?ts = "filter (\<lambda>tm. fst (snd tm) \<le> t) (timers s)"
  have "(h, d, u) \<in> set (timers_of u s)"
    using assms(1) by simp
  then have "(h, d, u) \<in> set ?ts"
    using assms(2) by (simp add: timers_of_def)
  then obtain ts1 ts2 where ts: "?ts = ts1 @ (h, d, u) # ts2"
    by (meson split_list)
  have "distinct (map fst ?ts)"
    using assms(4) by (simp add: distinct_map_filter)
  then have h1: "h \<notin> fst ` set ts1" and h2: "h \<notin> fst ` set ts2"
    unfolding ts by auto
  have "sorted (map (\<lambda>t. fst (snd t)) ?ts)"
    using assms(5) by (rule sorted_filter)
  then have before: "\<forall>x\<in>set ts1. fst (snd x) \<le> d"
    unfolding ts by (auto simp: sorted_append)
  define s1 where "s1 = fire_all ts1 s"
  define s2 where "s2 = s1\<lparr>now := max (now s1) d\<rparr>"
  define s3 where "s3 = fire h s2"
  have s1: "buffer_of u s1 = buffer_of u s" "timers_of u s1 = [(h, d, u)]"
    "flushes_of u s1 = flushes_of u s" "upload_calls_of u s1 = upload_calls_of u s"
    using fire_all_other [OF assms(1) h1] by (simp_all add: s1_def)
  have "now s1 \<le> d"
    unfolding s1_def using assms(3) before by (rule now_fire_all)
  then have now2: "now s2 = d"
    by (simp add: s2_def max_def)
  have t2: "timers_of u s2 = [(h, d, u)]"
    using s1(2) by (simp add: s2_def)
  have "timers s1 = filter (\<lambda>x. fst x \<notin> fst ` set ts1) (timers s)"
    unfolding s1_def by (rule timers_fire_all)
  then have d2: "distinct (map fst (timers s2))"
    using assms(4) by (simp add: s2_def distinct_map_filter)
  have g2: "guildId s2 = guildId s" "buffer_of u s2 = buffer_of u s"
    "flushes_of u s2 = flushes_of u s" "upload_calls_of u s2 = upload_calls_of u s"
    using s1 by (simp_all add: s2_def s1_def)
  have s3: "buffer_of u s3 = []"
    "flushes_of u s3 =
       flushes_of u s @ (if buffer_of u s = [] then [] else [(d, u, concat (buffer_of u s))])"
    "upload_calls_of u s3 =
       upload_calls_of u s @
       (if buffer_of u s = [] \<or> length (concat (buffer_of u s)) < 19200 then []
        else [\<lparr>arg_userId = u, arg_guildId = guildId s, arg_pcmBuffer = concat (buffer_of u s),
               arg_sampleRate = 48000, arg_channels = 2\<rparr>])"
    unfolding s3_def using fire_own [OF t2 d2] by (simp_all only: now2 g2)
  have all: "fire_all ?ts s = fire_all ts2 s3"
    by (simp add: ts fire_all_append s1_def s2_def s3_def)
  from fire_all_quiet [OF s3(1), of ts2]
  show "buffer_of u (advance t s) = []"
    "flushes_of u (advance t s) =
       flushes_of u s @ (if buffer_of u s = [] then [] else [(d, u, concat (buffer_of u s))])"
    "upload_calls_of u (advance t s) =
       upload_calls_of u s @
       (if buffer_of u s = [] \<or> length (concat (buffer_of u s)) < 19200 then []
        else [\<lparr>arg_userId = u, arg_guildId = guildId s, arg_pcmBuffer = concat (buffer_of u s),
               arg_sampleRate = 48000, arg_channels = 2\<rparr>])"
    by (simp_all add: advance_def Let_def all s3)
qed

subsection \<open>Chunks in quick succession make one utterance\<close>

lemma now_exec: "now (exec evs s) = clock (now s) evs"
proof (induction evs arbitrary: s)
  case Nil
  then show ?case by (simp add: exec_Nil)
next
  case (Cons e evs)
  then show ?case
    by (cases e) (simp_all add: exec_Cons now_advance)
qed

lemma clock_ge: "t \<le> clock t evs"
proof (induction evs arbitrary: t)
  case Nil
  then show ?case by simp
next
  case (Cons e evs)
  have "max t t' \<le> clock (max t t') evs" for t'
    by (rule Cons)
  then have "t \<le> clock (max t t') evs" for t'
    by (rule max.boundedE)
  then show ?case
    using Cons by (cases e) simp_all
qed

lemma clock_before_chunk: "list_all (before_chunk u t) evs \<Longrightarrow> t0 \<le> t \<Longrightarrow> clock t0 evs \<le> t"
proof (induction evs arbitrary: t0)
  case Nil
  then show ?case by simp
next
  case (Cons e evs)
  then show ?case by (cases e) simp_all
qed

lemma clock_append: "clock t (evs @ evs') = clock (clock t evs) evs'"
proof (induction evs arbitrary: t)
  case Nil
  then show ?case by simp
next
  case (Cons e evs)
  then show ?case by (cases e) simp_all
qed

lemma session_ok_exec:
  assumes "session_ok g q u s" "Destroy \<notin> set evs"
  shows "session_ok g q u (exec evs s)"
  using assms
proof (induction evs arbitrary: s)
  case Nil
  then show ?case by (simp add: exec_Nil)
next
  case (Cons e evs)
  have "session_ok g q u (step s e)"
    using Cons.prems by (intro session_ok_step) auto
  then show ?case
    using Cons by (simp add: exec_Cons)
qed

lemma idle_step:
  assumes "idle g q u F s" "before_chunk u t e \<or> after_chunks u e"
  shows "idle g q u F (step s e)"
proof -
  have ok: "session_ok g q u s" and b: "buffer_of u s = []"
    and F: "(flushes_of u s, upload_calls_of u s) = F"
    using assms(1) by (simp_all add: idle_def)
  note inv = session_okD [OF ok]
  have e: "e \<noteq> Destroy"
    using assms(2) by auto
  have ok': "session_ok g q u (step s e)"
    using ok e by (rule session_ok_step)
  consider (bystander) "bystander u e" | (speaking) "e = SpeakingStart u"
    | (clock) t' where "e = Elapse t'"
    using assms(2) by (cases e) auto
  then have "buffer_of u (step s e) = [] \<and> flushes_of u (step s e) = flushes_of u s \<and>
    upload_calls_of u (step s e) = upload_calls_of u s"
  proof cases
    case bystander
    show ?thesis
      using bystander_step [OF inv(2,4) bystander] b by simp
  next
    case speaking
    show ?thesis
      using speaking_step [OF ok] b by (simp add: speaking)
  next
    case clock
    show ?thesis
      using advance_quiet [OF b] by (simp add: clock)
  qed
  then show ?thesis
    using ok' F by (simp add: idle_def)
qed

lemma idle_exec:
  assumes "idle g q u F s" "list_all (\<lambda>e. before_chunk u t e \<or> after_chunks u e) evs"
  shows "idle g q u F (exec evs s)"
  using assms
proof (induction evs arbitrary: s)
  case Nil
  then show ?case by (simp add: exec_Nil)
next
  case (Cons e evs)
  have "idle g q u F (step s e)"
    using Cons.prems by (intro idle_step [where t = t]) simp_all
  then show ?case
    using Cons by (simp add: exec_Cons)
qed

lemma chunk_arms:
  assumes "session_ok g q u s" "buffer_of u s = B" "(flushes_of u s, upload_calls_of u s) = F"
  shows "armed g q u (B @ [c]) F (nextHandle s) (now s + q) (step s (DecoderData u c))"
proof -
  have "session_ok g q u (step s (DecoderData u c))"
    using assms(1) by (rule session_ok_step) simp
  then show ?thesis
    using chunk_step [OF assms(1), of c] assms(2,3) by (simp add: armed_def)
qed

lemma idle_segment:
  assumes "idle g q u F s" "list_all (before_chunk u t) pre" "now s \<le> t"
  shows "\<exists>h. armed g q u [c] F h (t + q) (exec (pre @ [Elapse t, DecoderData u c]) s)"
    and "now (exec (pre @ [Elapse t, DecoderData u c]) s) = t"
proof -
  define s1 where "s1 = step (exec pre s) (Elapse t)"
  have "list_all (\<lambda>e. before_chunk u t e \<or> after_chunks u e) pre"
    using assms(2) by (simp add: list_all_iff)
  then have "idle g q u F (exec pre s)"
    by (rule idle_exec [OF assms(1)])
  then have i: "idle g q u F s1"
    unfolding s1_def by (rule idle_step [where t = t]) simp
  have "now (exec pre s) \<le> t"
    using assms(2,3) by (simp add: now_exec clock_before_chunk)
  then have n: "now s1 = t"
    by (simp add: s1_def now_advance)
  have ex: "exec (pre @ [Elapse t, DecoderData u c]) s = step s1 (DecoderData u c)"
    by (simp add: exec_def s1_def)
  have ok1: "session_ok g q u s1"
    using i by (simp add: idle_def)
  have "armed g q u ([] @ [c]) F (nextHandle s1) (now s1 + q) (step s1 (DecoderData u c))"
    using i by (intro chunk_arms) (simp_all add: idle_def)
  then have "armed g q u [c] F (nextHandle s1) (t + q) (step s1 (DecoderData u c))"
    by (simp only: n append_Nil)
  then show "\<exists>h. armed g q u [c] F h (t + q) (exec (pre @ [Elapse t, DecoderData u c]) s)"
    unfolding ex by blast
  show "now (exec (pre @ [Elapse t, DecoderData u c]) s) = t"
    unfolding ex using n chunk_step(5) [OF ok1, of c] by (simp only:)
qed

lemma armed_step:
  assumes "armed g q u B F h d s" "before_chunk u t e" "now s \<le> t" "t < now s + q" "t < d"
  shows "\<exists>h' d'. armed g q u B F h' d' (step s e) \<and> t < d'"
proof -
  have ok: "session_ok g q u s" and b: "B \<noteq> []" "buffer_of u s = B"
    and tm: "timers_of u s = [(h, d, u)]"
    and F: "(flushes_of u s, upload_calls_of u s) = F"
    using assms(1) by (simp_all add: armed_def)
  note inv = session_okD [OF ok]
  have e: "e \<noteq> Destroy"
    using assms(2) by auto
  have ok': "session_ok g q u (step s e)"
    using ok e by (rule session_ok_step)
  consider (bystander) "bystander u e" | (speaking) "e = SpeakingStart u"
    | (clock) t' where "e = Elapse t'" "t' \<le> t"
    using assms(2) by (cases e) auto
  then show ?thesis
  proof cases
    case bystander
    have "armed g q u B F h d (step s e)"
      using bystander_step [OF inv(2,4) bystander] ok' b tm F by (simp add: armed_def)
    then show ?thesis
      using assms(5) by blast
  next
    case speaking
    have "armed g q u B F (nextHandle s) (now s + q) (step s e)"
      using speaking_step [OF ok] ok' b F unfolding speaking by (simp add: armed_def)
    then show ?thesis
      using assms(4) by blast
  next
    case clock
    have "t' < d"
      using clock(2) assms(5) by simp
    from advance_early [OF tm this timers_trackedD(1) [OF inv(2)]]
    have "armed g q u B F h d (step s e)"
      using ok' b F unfolding clock(1) by (simp add: armed_def)
    then show ?thesis
      using assms(5) by blast
  qed
qed

lemma now_step_before_chunk:
  assumes "before_chunk u t e" "now s \<le> t"
  shows "now s \<le> now (step s e)" "now (step s e) \<le> t"
  using assms by (cases e; simp add: now_advance)+

lemma armed_before_chunk:
  assumes "armed g q u B F h d s" "list_all (before_chunk u t) pre" "now s \<le> t"
    "t < now s + q" "t < d"
  shows "\<exists>h' d'. armed g q u B F h' d' (exec pre s) \<and> t < d'"
  using assms
proof (induction pre arbitrary: s h d)
  case Nil
  then show ?case by (auto simp: exec_Nil)
next
  case (Cons e pre)
  have e: "before_chunk u t e" and pre: "list_all (before_chunk u t) pre"
    using Cons.prems(2) by simp_all
  obtain h' d' where a: "armed g q u B F h' d' (step s e)" "t < d'"
    using armed_step [OF Cons.prems(1) e Cons.prems(3,4,5)] by blast
  have n: "now (step s e) \<le> t" "t < now (step s e) + q"
    using now_step_before_chunk [OF e Cons.prems(3)] Cons.prems(4) by simp_all
  show ?case
    using Cons.IH [OF a(1) pre n a(2)] by (simp add: exec_Cons)
qed

lemma armed_segment:
  assumes "armed g q u B F h d s" "list_all (before_chunk u t) pre" "now s \<le> t"
    "t < now s + q" "t < d"
  shows "\<exists>h'. armed g q u (B @ [c]) F h' (t + q) (exec (pre @ [Elapse t, DecoderData u c]) s)"
    and "now (exec (pre @ [Elapse t, DecoderData u c]) s) = t"
proof -
  define s1 where "s1 = step (exec pre s) (Elapse t)"
  obtain h' d' where a: "armed g q u B F h' d' (exec pre s)" "t < d'"
    using armed_before_chunk [OF assms] by blast
  have ok: "session_ok g q u (exec pre s)" and tm: "timers_of u (exec pre s) = [(h', d', u)]"
    using a(1) by (simp_all add: armed_def)
  have ok1: "session_ok g q u s1"
    unfolding s1_def using ok by (rule session_ok_step) simp
  have "now (exec pre s) \<le> t"
    using assms(2,3) by (simp add: now_exec clock_before_chunk)
  then have n: "now s1 = t"
    by (simp add: s1_def now_advance)
  from advance_early [OF tm a(2) timers_trackedD(1) [OF session_okD(2) [OF ok]]]
  have v: "buffer_of u s1 = B" "(flushes_of u s1, upload_calls_of u s1) = F"
    using a(1) by (simp_all add: s1_def armed_def)
  have ex: "exec (pre @ [Elapse t, DecoderData u c]) s = step s1 (DecoderData u c)"
    by (simp add: exec_def s1_def)
  have "armed g q u (B @ [c]) F (nextHandle s1) (now s1 + q) (step s1 (DecoderData u c))"
    using ok1 v by (rule chunk_arms)
  then have "armed g q u (B @ [c]) F (nextHandle s1) (t + q) (step s1 (DecoderData u c))"
    by (simp only: n)
  then show "\<exists>h'. armed g q u (B @ [c]) F h' (t + q)
      (exec (pre @ [Elapse t, DecoderData u c]) s)"
    unfolding ex by blast
  show "now (exec (pre @ [Elapse t, DecoderData u c]) s) = t"
    unfolding ex using n chunk_step(5) [OF ok1, of c] by (simp only:)
qed

lemma armed_segments:
  assumes "armed g q u B F h (now s + q) s"
    "list_all (\<lambda>seg. list_all (before_chunk u (chunk_time seg)) (fst seg)) segs"
    "gaps_shorter q (now s # map chunk_time segs)"
  shows "\<exists>h'. armed g q u (B @ map chunk_data segs) F h'
      (last (now s # map chunk_time segs) + q) (exec (concat (map (segment_events u) segs)) s) \<and>
    now (exec (concat (map (segment_events u) segs)) s) = last (now s # map chunk_time segs)"
  using assms
proof (induction segs arbitrary: s B h)
  case Nil
  then show ?case by (auto simp: exec_Nil)
next
  case (Cons seg segs)
  let ?t = "chunk_time seg" and ?c = "chunk_data seg"
  let ?s1 = "exec (fst seg @ [Elapse ?t, DecoderData u ?c]) s"
  have g: "now s \<le> ?t" "?t < now s + q" "gaps_shorter q (?t # map chunk_time segs)"
    using Cons.prems(3) by auto
  have p: "list_all (before_chunk u ?t) (fst seg)"
    "list_all (\<lambda>seg. list_all (before_chunk u (chunk_time seg)) (fst seg)) segs"
    using Cons.prems(2) by simp_all
  obtain h' where a1: "armed g q u (B @ [?c]) F h' (?t + q) ?s1"
    using armed_segment(1) [OF Cons.prems(1) p(1) g(1,2,2)] by blast
  have n1: "now ?s1 = ?t"
    using armed_segment(2) [OF Cons.prems(1) p(1) g(1,2,2)] .
  have e: "exec (concat (map (segment_events u) (seg # segs))) s =
      exec (concat (map (segment_events u) segs)) ?s1"
    by (simp add: segment_events_def exec_def)
  have "armed g q u (B @ [?c]) F h' (now ?s1 + q) ?s1"
    "gaps_shorter q (now ?s1 # map chunk_time segs)"
    using a1 g(3) by (simp_all only: n1)
  from Cons.IH [OF this(1) p(2) this(2)]
  show ?case
    unfolding e n1 by simp
qed

lemma armed_bystander:
  assumes "armed g q u B F h d s" "bystander u e"
  shows "armed g q u B F h d (step s e)" "now (step s e) = now s"
proof -
  have ok: "session_ok g q u s"
    using assms(1) by (simp add: armed_def)
  note inv = session_okD [OF ok]
  have "e \<noteq> Destroy"
    using assms(2) by auto
  then have "session_ok g q u (step s e)"
    using ok by (intro session_ok_step)
  then show "armed g q u B F h d (step s e)"
    using bystander_step [OF inv(2,4) assms(2)] assms(1) by (simp add: armed_def)
  show "now (step s e) = now s"
    using bystander_step(5) [OF inv(2,4) assms(2)] .
qed

lemma armed_elapse_early:
  assumes "armed g q u B F h d s" "t < d"
  shows "armed g q u B F h d (step s (Elapse t))"
proof -
  have ok: "session_ok g q u s" and tm: "timers_of u s = [(h, d, u)]"
    using assms(1) by (simp_all add: armed_def)
  have "session_ok g q u (step s (Elapse t))"
    using ok by (rule session_ok_step) simp
  then show ?thesis
    using advance_early [OF tm assms(2) timers_trackedD(1) [OF session_okD(2) [OF ok]]] assms(1)
    by (simp add: armed_def)
qed

lemma armed_elapse_due:
  assumes "armed g q u B F h d s" "now s \<le> d" "d \<le> t"
  shows "idle g q u
     (fst F @ [(d, u, concat B)],
      snd F @ (if length (concat B) < 19200 then []
               else [\<lparr>arg_userId = u, arg_guildId = g, arg_pcmBuffer = concat B,
                      arg_sampleRate = 48000, arg_channels = 2\<rparr>]))
     (step s (Elapse t))"
proof -
  have ok: "session_ok g q u s" and tm: "timers_of u s = [(h, d, u)]"
    and b: "B \<noteq> []" "buffer_of u s = B" and F: "F = (flushes_of u s, upload_calls_of u s)"
    using assms(1) by (auto simp: armed_def)
  note inv = session_okD [OF ok]
  have sorted: "sorted (map (\<lambda>t. fst (snd t)) (timers s))"
    using inv(3) by (simp add: timers_in_order_def)
  have "session_ok g q u (step s (Elapse t))"
    using ok by (rule session_ok_step) simp
  then show ?thesis
    using advance_due [OF tm assms(3,2) timers_trackedD(1) [OF inv(2)] sorted] b inv(6)
    by (simp add: idle_def F)
qed

lemma armed_after_chunks:
  assumes "armed g q u B F h d s" "now s < d" "list_all (after_chunks u) post"
  shows "if d \<le> clock (now s) post
     then idle g q u
       (fst F @ [(d, u, concat B)],
        snd F @ (if length (concat B) < 19200 then []
                 else [\<lparr>arg_userId = u, arg_guildId = g, arg_pcmBuffer = concat B,
                        arg_sampleRate = 48000, arg_channels = 2\<rparr>]))
       (exec post s)
     else armed g q u B F h d (exec post s)"
  using assms
proof (induction post arbitrary: s)
  case Nil
  then show ?case by (simp add: exec_Nil)
next
  case (Cons e post)
  have rest: "list_all (after_chunks u) post"
    using Cons.prems(3) by simp
  consider (bystander) "bystander u e" | (early) t where "e = Elapse t" "t < d"
    | (due) t where "e = Elapse t" "d \<le> t"
    using Cons.prems(3) by (cases e) (auto, linarith)
  then show ?case
  proof cases
    case bystander
    have c: "clock (now s) (e # post) = clock (now s) post"
      using bystander by (cases e) simp_all
    from armed_bystander [OF Cons.prems(1) bystander] Cons.prems(2)
    have "armed g q u B F h d (step s e)" "now (step s e) < d" "now (step s e) = now s"
      by simp_all
    from Cons.IH [OF this(1,2) rest] this(3) show ?thesis
      by (simp only: c exec_Cons)
  next
    case early
    have c: "clock (now s) (e # post) = clock (max (now s) t) post"
      by (simp add: early(1))
    have n: "now (step s e) = max (now s) t"
      by (simp add: early(1) now_advance)
    have a: "armed g q u B F h d (step s e)"
      unfolding early(1) using Cons.prems(1) early(2) by (rule armed_elapse_early)
    have b: "now (step s e) < d"
      using Cons.prems(2) early(2) by (simp add: n)
    from Cons.IH [OF a b rest] show ?thesis
      by (simp only: c exec_Cons n)
  next
    case due
    have "d \<le> max (now s) t"
      using due(2) by simp
    also have "\<dots> \<le> clock (max (now s) t) post"
      by (rule clock_ge)
    finally have c: "d \<le> clock (now s) (e # post)"
      by (simp add: due(1))
    have "now s \<le> d"
      using Cons.prems(2) by simp
    then have "idle g q u
       (fst F @ [(d, u, concat B)],
        snd F @ (if length (concat B) < 19200 then []
                 else [\<lparr>arg_userId = u, arg_guildId = g, arg_pcmBuffer = concat B,
                        arg_sampleRate = 48000, arg_channels = 2\<rparr>]))
       (step s e)"
      unfolding due(1) using due(2) by (intro armed_elapse_due [OF Cons.prems(1)])
    moreover have "list_all (\<lambda>e. before_chunk u 0 e \<or> after_chunks u e) post"
      using rest by (simp add: list_all_iff)
    ultimately have "idle g q u
       (fst F @ [(d, u, concat B)],
        snd F @ (if length (concat B) < 19200 then []
                 else [\<lparr>arg_userId = u, arg_guildId = g, arg_pcmBuffer = concat B,
                        arg_sampleRate = 48000, arg_channels = 2\<rparr>]))
       (exec post (step s e))"
      by (rule idle_exec)
    then show ?thesis
      using c by (simp only: exec_Cons if_True)
  qed
qed

lemma reachable_session_ok:
  assumes "map_of (users (exec evs (AudioRecorder g q))) u \<noteq> None"
  shows "session_ok g q u (exec evs (AudioRecorder g q))"
proof -
  let ?s = "exec evs (AudioRecorder g q)"
  have inv: "recorder_inv ?s"
    by (intro recorder_inv_exec recorder_inv_AudioRecorder)
  then have r: "registry_consistent ?s"
    by (simp add: recorder_inv_def)
  have "users ?s \<noteq> []"
    using assms by auto
  then have d: "\<not> destroyed ?s" and k: "map fst (users ?s) = subscriptions ?s"
    using r by (auto simp: registry_consistent_def split: if_splits)
  have "u \<in> fst ` set (users ?s)"
    using assms by (simp add: map_of_eq_None_iff)
  then have "u \<in> set (subscriptions ?s)"
    unfolding k [symmetric] by simp
  then show ?thesis
    using inv d by (simp add: session_ok_def)
qed

text \<open>
  C1: the chunks of one speaker in quick succession are flushed once, one quiet period
  after the last of them, as the concatenation of all of them in arrival order. The
  recorder is in any state that events have brought it to, with the speaker subscribed
  and the buffer of the speaker empty; the quiet period is a delay that the timers of
  the runtime take as it is. Every chunk comes at its time, the first not before the
  present and each of the others less than a quiet period after the one before it.
  Before each chunk anything may happen to the other speakers (speaking signals, chunks,
  closed streams, timeouts and their flushes), streams may report errors, uploads may
  settle, time may pass up to the time of the chunk, and the speaker may give speaking
  signals; after the last chunk the same may happen and any time may pass, while the
  speaker gives no further speaking signal, which would start the quiet period again.
  The stream of the speaker is not closed and the recorder is not destroyed meanwhile.
  Then, once the clock has reached the time of the last chunk plus the quiet period,
  exactly one buffer of the speaker was drained, at that time, and it is the
  concatenation of the chunks in order; the buffer of the speaker is empty again; and
  the drained buffer went to the upload client in one call if it has at least 19200
  bytes, in none otherwise. Before that time nothing of the speaker was drained or
  uploaded, and the buffer holds the chunks.
\<close>

theorem chunks_coalesce_into_one_flush:
  assumes "0 < q" and "q \<le> 2147483647"
    and "s0 = exec evs0 (AudioRecorder g q)"
    and "map_of (users s0) u \<noteq> None" and "buffer_of u s0 = []"
    and "segs \<noteq> []" and "well_timed q u segs" and "now s0 \<le> chunk_time (hd segs)"
    and "list_all (after_chunks u) post"
    and "s' = exec (utterance_events u segs post) s0"
    and "T = chunk_time (last segs) + q"
    and "pcm = concat (map chunk_data segs)"
    and "fired = (T \<le> clock (chunk_time (last segs)) post)"
  shows "flushes_of u s' = flushes_of u s0 @ (if fired then [(T, u, pcm)] else []) \<and>
    buffer_of u s' = (if fired then [] else map chunk_data segs) \<and>
    upload_calls_of u s' =
      upload_calls_of u s0 @
      (if fired \<and> 19200 \<le> length pcm
       then [\<lparr>arg_userId = u, arg_guildId = g, arg_pcmBuffer = pcm,
               arg_sampleRate = 48000, arg_channels = 2\<rparr>]
       else [])"
proof -
  define F where "F = (flushes_of u s0, upload_calls_of u s0)"
  obtain seg rest where segs: "segs = seg # rest"
    using assms(6) by (cases segs) auto
  let ?t = "chunk_time seg" and ?c = "chunk_data seg"
  let ?s1 = "exec (fst seg @ [Elapse ?t, DecoderData u ?c]) s0"
  let ?s2 = "exec (concat (map (segment_events u) rest)) ?s1"
  have "session_ok g q u s0"
    using assms(4) unfolding assms(3) by (rule reachable_session_ok)
  then have i0: "idle g q u F s0"
    using assms(5) by (simp add: idle_def F_def)
  have pre: "list_all (before_chunk u ?t) (fst seg)"
    "list_all (\<lambda>seg. list_all (before_chunk u (chunk_time seg)) (fst seg)) rest"
    and gaps: "gaps_shorter q (?t # map chunk_time rest)"
    using assms(7) by (simp_all add: well_timed_def segs)
  have t0: "now s0 \<le> ?t"
    using assms(8) by (simp add: segs)
  obtain h1 where a1: "armed g q u [?c] F h1 (?t + q) ?s1"
    using idle_segment(1) [OF i0 pre(1) t0] by blast
  have n1: "now ?s1 = ?t"
    using idle_segment(2) [OF i0 pre(1) t0] .
  have "armed g q u [?c] F h1 (now ?s1 + q) ?s1" "gaps_shorter q (now ?s1 # map chunk_time rest)"
    using a1 gaps by (simp_all only: n1)
  from armed_segments [OF this(1) pre(2) this(2)]
  obtain h2 where a2: "armed g q u ([?c] @ map chunk_data rest) F h2
      (last (?t # map chunk_time rest) + q) ?s2"
    and n2: "now ?s2 = last (?t # map chunk_time rest)"
    unfolding n1 by blast
  have l: "last (?t # map chunk_time rest) = chunk_time (last segs)"
    by (simp add: segs last_map)
  have B: "[?c] @ map chunk_data rest = map chunk_data segs"
    by (simp add: segs)
  have a2': "armed g q u (map chunk_data segs) F h2 T ?s2" and n2': "now ?s2 = chunk_time (last segs)"
    using a2 n2 by (simp_all only: l B assms(11))
  have "now ?s2 < T"
    using assms(1) by (simp add: n2' assms(11))
  from armed_after_chunks [OF a2' this assms(9)]
  have post: "if fired
     then idle g q u
       (fst F @ [(T, u, pcm)],
        snd F @ (if length pcm < 19200 then []
                 else [\<lparr>arg_userId = u, arg_guildId = g, arg_pcmBuffer = pcm,
                        arg_sampleRate = 48000, arg_channels = 2\<rparr>]))
       (exec post ?s2)
     else armed g q u (map chunk_data segs) F h2 T (exec post ?s2)"
    by (simp only: n2' assms(12,13))
  have s': "s' = exec post ?s2"
    by (simp add: assms(10) utterance_events_def segs segment_events_def exec_def)
  show ?thesis
  proof (cases fired)
    case True
    then show ?thesis
      using post by (auto simp: s' idle_def F_def)
  next
    case False
    then show ?thesis
      using post by (auto simp: s' armed_def F_def)
  qed
qed

theorem chunks_coalesce_into_one_flush_witness:
  "flushes_of ''u''
     (exec (utterance_events ''u''
         [([], 0, [1]),
          ([SpeakingStart ''u'', DecoderData ''v'' [5]], 200, replicate 19200 2),
          ([Elapse 300], 400, [3])]
         [DecoderData ''v'' [6], Elapse 1400])
       (exec [SpeakingStart ''v'', SpeakingStart ''u''] (AudioRecorder ''g'' 1000))) =
     [(1400, ''u'', 1 # replicate 19200 2 @ [3])] \<and>
   buffer_of ''u''
     (exec (utterance_events ''u''
         [([], 0, [1]),
          ([SpeakingStart ''u'', DecoderData ''v'' [5]], 200, replicate 19200 2),
          ([Elapse 300], 400, [3])]
         [DecoderData ''v'' [6], Elapse 1400])
       (exec [SpeakingStart ''v'', SpeakingStart ''u''] (AudioRecorder ''g'' 1000))) = [] \<and>
   upload_calls_of ''u''
     (exec (utterance_events ''u''
         [([], 0, [1]),
          ([SpeakingStart ''u'', DecoderData ''v'' [5]], 200, replicate 19200 2),
          ([Elapse 300], 400, [3])]
         [DecoderData ''v'' [6], Elapse 1400])
       (exec [SpeakingStart ''v'', SpeakingStart ''u''] (AudioRecorder ''g'' 1000))) =
     [\<lparr>arg_userId = ''u'', arg_guildId = ''g'',
       arg_pcmBuffer = 1 # replicate 19200 2 @ [3], arg_sampleRate = 48000,
       arg_channels = 2\<rparr>]"
proof -
  let ?s0 = "exec [SpeakingStart ''v'', SpeakingStart ''u''] (AudioRecorder ''g'' 1000)"
  let ?segs = "[([], 0, [1]),
      ([SpeakingStart ''u'', DecoderData ''v'' [5]], 200, replicate 19200 2),
      ([Elapse 300], 400, [3])] :: segment list"
  let ?post = "[DecoderData ''v'' [6], Elapse 1400]"
  have s0: "?s0 = \<lparr>guildId = ''g'',
      users = [(''v'', \<lparr>audioChunks = [], isSpeaking = True, silenceTimer = Some 0\<rparr>),
               (''u'', \<lparr>audioChunks = [], isSpeaking = True, silenceTimer = Some 1\<rparr>)],
      destroyed = False, SILENCE_DURATION_MS = 1000, now = 0,
      timers = [(0, 1000, ''v''), (1, 1000, ''u'')], nextHandle = 2,
      effects = [ConsoleLog (Subscribing ''v''), Subscribe ''v'',
                 ConsoleLog (Subscribing ''u''), Subscribe ''u'']\<rparr>"
    by (simp add: recorder_eval)
  have before: "map_of (users ?s0) ''u'' \<noteq> None" "buffer_of ''u'' ?s0 = []"
    "now ?s0 \<le> chunk_time (hd ?segs)" "flushes_of ''u'' ?s0 = []"
    "upload_calls_of ''u'' ?s0 = []"
    unfolding s0
    by (simp_all add: buffer_of_def flushes_of_def upload_calls_of_def flushes_def
        upload_calls_def List.map_filter_def)
  have timed: "well_timed 1000 ''u'' ?segs" "list_all (after_chunks ''u'') ?post"
    by (simp_all add: well_timed_def chunk_time_def)
  have "(0::nat) < 1000" "(1000::nat) \<le> 2147483647" "?segs \<noteq> []"
    by simp_all
  from chunks_coalesce_into_one_flush [OF this(1,2) refl before(1,2) this(3) timed(1) before(3)
      timed(2) refl refl refl refl]
  show ?thesis
    by (simp add: before(4,5) chunk_time_def chunk_data_def)
qed

text \<open>
  A speaking signal of the speaker after the last chunk sets the timer anew: the flush
  then comes a quiet period after the signal.
\<close>

lemma speaking_signal_restarts_quiet_period:
  "flushes (exec [SpeakingStart ''u'', DecoderData ''u'' [1], Elapse 500, SpeakingStart ''u'',
      Elapse 1000] (AudioRecorder ''g'' 1000)) = [] \<and>
   flushes (exec [SpeakingStart ''u'', DecoderData ''u'' [1], Elapse 500, SpeakingStart ''u'',
      Elapse 1000, Elapse 1500] (AudioRecorder ''g'' 1000)) = [(1500, ''u'', [1])]"
  by (simp add: recorder_eval flushes_def List.map_filter_def)

section \<open>Properties of the voice session manager\<close>


lemmas manager_eval = recorders_get_destroy_def recorders_delete_def on_destroyed_def
  connection_destroy_def djsJoinVoiceChannel_def teardown_existing_def joinVoiceChannel_begin_def
  joinVoiceChannel_ready_def joinVoiceChannel_failed_def leaveVoiceChannel_def no_manager_def
  recorder_event_def Let_def

lemma teardown_existing_entry:
  assumes "tracked m g = Some c" and "conn_guild (connections m c) = g"
    and "\<not> conn_destroyed (connections m c)" and "recorders m g = Some r"
  shows "teardown_existing g m =
     Inr (m\<lparr>tracked := (tracked m)(g := None),
            connections := (connections m)(c := (connections m c)\<lparr>conn_destroyed := True\<rparr>),
            recorder_objs := (recorder_objs m)(r := destroy (recorder_objs m r)),
            recorders := (recorders m)(g := None),
            actions := actions m @ [ConnectionDestroyed c, RecorderDestroyed r]\<rparr>)"
  using assms
  by (cases "wired (connections m c)") (simp_all add: manager_eval)

text \<open>
  C9: a join for a guild that has an entry (a live connection registered for the guild
  and a recorder in the Map). Before the new connection is created, the old connection
  is destroyed once and the old recorder is destroyed once, which cancels every timer of
  it, and both Maps have lost the guild; then the new connection is created and
  registered. When it has become ready, the new recorder goes into the Map under the
  guild, a fresh one, and the old one stays destroyed.
\<close>

theorem join_replaces_existing_entry:
  assumes "tracked m g = Some c" and "conn_guild (connections m c) = g"
    and "\<not> conn_destroyed (connections m c)" and "recorders m g = Some r"
    and "timers_tracked (recorder_objs m r)" and "c < nextConnection m" and "r < nextRecorder m"
  shows "\<exists>m1 m2.
     teardown_existing g m = Inr m1 \<and>
     tracked m1 g = None \<and> recorders m1 g = None \<and>
     conn_destroyed (connections m1 c) \<and>
     recorder_objs m1 r = destroy (recorder_objs m r) \<and>
     destroyed (recorder_objs m1 r) \<and> users (recorder_objs m1 r) = [] \<and>
     timers (recorder_objs m1 r) = [] \<and>
     actions m1 = actions m @ [ConnectionDestroyed c, RecorderDestroyed r] \<and>
     joinVoiceChannel_begin g m = Inr (nextConnection m, m2) \<and>
     m2 = snd (djsJoinVoiceChannel g m1) \<and>
     tracked m2 g = Some (nextConnection m) \<and> recorders m2 g = None \<and>
     \<not> conn_destroyed (connections m2 (nextConnection m)) \<and>
     conn_destroyed (connections m2 c) \<and>
     actions m2 = actions m @
       [ConnectionDestroyed c, RecorderDestroyed r, ConnectionCreated (nextConnection m)] \<and>
     recorders (joinVoiceChannel_ready (nextConnection m) g q m2) g = Some (nextRecorder m) \<and>
     recorder_objs (joinVoiceChannel_ready (nextConnection m) g q m2) (nextRecorder m) =
       AudioRecorder g q \<and>
     recorder_objs (joinVoiceChannel_ready (nextConnection m) g q m2) r =
       destroy (recorder_objs m r)"
proof -
  let ?m1 = "m\<lparr>tracked := (tracked m)(g := None),
            connections := (connections m)(c := (connections m c)\<lparr>conn_destroyed := True\<rparr>),
            recorder_objs := (recorder_objs m)(r := destroy (recorder_objs m r)),
            recorders := (recorders m)(g := None),
            actions := actions m @ [ConnectionDestroyed c, RecorderDestroyed r]\<rparr>"
  have t: "teardown_existing g m = Inr ?m1"
    using assms(1-4) by (rule teardown_existing_entry)
  have j: "joinVoiceChannel_begin g m = Inr (nextConnection m, snd (djsJoinVoiceChannel g ?m1))"
    by (simp add: joinVoiceChannel_begin_def t djsJoinVoiceChannel_def Let_def)
  have tm: "timers (destroy (recorder_objs m r)) = []"
    using assms(5) by (rule timers_destroy)
  show ?thesis
    apply (rule exI [where x = ?m1])
    apply (rule exI [where x = "snd (djsJoinVoiceChannel g ?m1)"])
    using assms(6,7) tm
    by (simp add: t j djsJoinVoiceChannel_def joinVoiceChannel_ready_def Let_def)
qed

theorem join_replaces_existing_entry_witness:
  "\<exists>m2. joinVoiceChannel_begin ''a''
       (recorder_event 0 (SpeakingStart ''u'')
         (joinVoiceChannel_ready 0 ''a'' 1000
           (snd (projr (joinVoiceChannel_begin ''a'' no_manager))))) = Inr (1, m2) \<and>
     actions m2 = [ConnectionCreated 0, RecorderCreated 0, ConnectionDestroyed 0,
       RecorderDestroyed 0, ConnectionCreated 1] \<and>
     timers (recorder_objs m2 0) = [] \<and> recorders m2 ''a'' = None"
proof -
  let ?m = "recorder_event 0 (SpeakingStart ''u'')
      (joinVoiceChannel_ready 0 ''a'' 1000 (snd (projr (joinVoiceChannel_begin ''a'' no_manager))))"
  have h1: "tracked ?m ''a'' = Some 0"
    and h2: "conn_guild (connections ?m 0) = ''a''"
    and h3: "\<not> conn_destroyed (connections ?m 0)"
    and h4: "recorders ?m ''a'' = Some 0"
    and h6: "0 < nextConnection ?m" and h7: "0 < nextRecorder ?m"
    by (simp_all add: manager_eval)
  have r: "recorder_objs ?m 0 = step (AudioRecorder ''a'' 1000) (SpeakingStart ''u'')"
    by (simp add: manager_eval)
  have h5: "timers_tracked (recorder_objs ?m 0)"
    unfolding r by (intro timers_tracked_step timers_tracked_AudioRecorder)
  have e: "actions ?m = [ConnectionCreated 0, RecorderCreated 0]" "nextConnection ?m = 1"
    by (simp_all add: manager_eval)
  obtain m1 m2 where "joinVoiceChannel_begin ''a'' ?m = Inr (nextConnection ?m, m2)"
    "actions m2 = actions ?m @
       [ConnectionDestroyed 0, RecorderDestroyed 0, ConnectionCreated (nextConnection ?m)]"
    "m2 = snd (djsJoinVoiceChannel ''a'' m1)" "timers (recorder_objs m1 0) = []"
    "tracked m1 ''a'' = None" "recorders m2 ''a'' = None"
    using join_replaces_existing_entry [OF h1 h2 h3 h4 h5 h6 h7] by blast
  then show ?thesis
    by (auto simp: e djsJoinVoiceChannel_def Let_def)
qed

end
